theory Spec2Isabelle
  imports Complex_Main "HOL-Library.Word" "HOL-Library.Log_Nat" "HOL-Library.Monad_Syntax"
  "HOL-Library.Multiset"
begin

unbundle bit_operations_syntax

section \<open>Go slices indexed by machine integers\<close>

text \<open>
  Node identifiers, hop counts and indices are Go \<open>int\<close>s.  An index expression
  \<open>xs[i]\<close> panics when \<open>i\<close> is negative or not below \<open>len(xs)\<close>; the model makes the
  panic the value \<open>None\<close>.
\<close>

definition in_range :: "'a list \<Rightarrow> int \<Rightarrow> bool" where
  "in_range xs i = (0 \<le> i \<and> i < int (length xs))"

definition go_index :: "'a list \<Rightarrow> int \<Rightarrow> 'a option" where
  "go_index xs i = (if in_range xs i then Some (xs ! nat i) else None)"

definition go_store :: "'a list \<Rightarrow> int \<Rightarrow> 'a \<Rightarrow> 'a list" where
  "go_store xs i v = xs[nat i := v]"

section \<open>Graph: adjacency lists with an edge counter\<close>

record graph =
  N :: int
  M :: int
  InBound :: "int list list"
  OutBound :: "int list list"

definition NewGraph :: "int \<Rightarrow> graph option" where
  "NewGraph n =
     (if n < 0 then None
      else Some \<lparr>N = n, M = 0, InBound = replicate (nat n) [], OutBound = replicate (nat n) []\<rparr>)"

text \<open>\<open>AddEdge\<close> refuses self-loops and edges already present; otherwise it appends to
  both adjacency lists and increments \<open>M\<close>.\<close>

definition AddEdge :: "graph \<Rightarrow> int \<Rightarrow> int \<Rightarrow> (bool \<times> graph) option" where
  "AddEdge g u v =
     (if u = v then Some (False, g)
      else case go_index (OutBound g) u of
        None \<Rightarrow> None
      | Some ou \<Rightarrow>
          if v \<in> set ou then Some (False, g)
          else (case go_index (InBound g) v of
            None \<Rightarrow> None
          | Some iv \<Rightarrow>
              Some (True, g\<lparr>OutBound := go_store (OutBound g) u (ou @ [v]),
                            InBound := go_store (InBound g) v (iv @ [u]),
                            M := M g + 1\<rparr>)))"

text \<open>The removal loop of \<open>DelEdge\<close>: the first occurrence of \<open>t\<close> is overwritten with the
  last element and the slice is shortened by one; nothing happens when \<open>t\<close> is absent.\<close>

fun first_pos :: "int \<Rightarrow> int list \<Rightarrow> nat option" where
  "first_pos t [] = None"
| "first_pos t (x # xs) =
     (if x = t then Some 0 else map_option Suc (first_pos t xs))"

definition swap_remove :: "int list \<Rightarrow> int \<Rightarrow> int list" where
  "swap_remove xs t =
     (case first_pos t xs of
        None \<Rightarrow> xs
      | Some i \<Rightarrow> butlast (xs[i := last xs]))"

definition DelEdge :: "graph \<Rightarrow> int \<Rightarrow> int \<Rightarrow> graph option" where
  "DelEdge g u v =
     (case go_index (OutBound g) u of
        None \<Rightarrow> None
      | Some ou \<Rightarrow>
          (case go_index (InBound g) v of
             None \<Rightarrow> None
           | Some iv \<Rightarrow>
               Some (g\<lparr>OutBound := go_store (OutBound g) u (swap_remove ou v),
                       InBound := go_store (InBound g) v (swap_remove iv u),
                       M := M g - 1\<rparr>)))"

definition out_edge_count :: "graph \<Rightarrow> int" where
  "out_edge_count g = sum_list (map (\<lambda>xs. int (length xs)) (OutBound g))"

section \<open>Geohash: Base32 digits, binary expansion, bucket index\<close>

text \<open>
  Geohash strings are sequences of runes; every string the program builds is ASCII, so a
  rune is one \<open>char\<close> here.
\<close>

definition Base32Charset :: string where
  "Base32Charset = ''0123456789bcdefghjkmnpqrstuvwxyz''"

text \<open>\<open>strings.IndexRune\<close>: the position of the first occurrence, or \<open>-1\<close>.\<close>

fun IndexRune_from :: "int \<Rightarrow> string \<Rightarrow> char \<Rightarrow> int" where
  "IndexRune_from i [] c = - 1"
| "IndexRune_from i (x # xs) c = (if x = c then i else IndexRune_from (i + 1) xs c)"

definition IndexRune :: "string \<Rightarrow> char \<Rightarrow> int" where
  "IndexRune s c = IndexRune_from 0 s c"

text \<open>\<open>(idx >> i) & 1\<close> for a non-negative \<open>idx\<close>, rendered as the character the
  loop of \<open>CharToBits\<close> writes for \<open>i = 4, 3, 2, 1, 0\<close>.\<close>

definition bit_of :: "int \<Rightarrow> nat \<Rightarrow> int" where
  "bit_of idx i = (idx div 2 ^ i) mod 2"

definition CharToBits :: "char \<Rightarrow> string" where
  "CharToBits ch =
     (let idx0 = IndexRune Base32Charset ch;
          idx = (if idx0 = - 1 then 0 else idx0)
      in map (\<lambda>i. if bit_of idx i = 1 then CHR ''1'' else CHR ''0'') [4, 3, 2, 1, 0])"

definition ToBinary :: "string \<Rightarrow> string" where
  "ToBinary geohash = concat (map CharToBits geohash)"

text \<open>\<open>FirstDiffBitPos\<close>: scan the common prefix length from the left.\<close>

fun FirstDiffBitPos_from :: "int \<Rightarrow> string \<Rightarrow> string \<Rightarrow> int" where
  "FirstDiffBitPos_from i (x # xs) (y # ys) =
     (if x \<noteq> y then i else FirstDiffBitPos_from (i + 1) xs ys)"
| "FirstDiffBitPos_from i _ _ = - 1"

definition FirstDiffBitPos :: "string \<Rightarrow> string \<Rightarrow> int" where
  "FirstDiffBitPos aBin bBin = FirstDiffBitPos_from 0 aBin bBin"

text \<open>
  \<open>XorDistance\<close> accumulates in a Go \<open>uint\<close>, 64 bits wide on the platforms the program
  is built for: \<open>1 << k\<close> is \<open>0\<close> once \<open>k \<ge> 64\<close> and the sum wraps.
\<close>

definition XorDistance :: "string \<Rightarrow> string \<Rightarrow> 64 word" where
  "XorDistance binaryA binaryB =
     (let maxLen = min (length binaryA) (length binaryB)
      in fold (\<lambda>i distance.
                 if binaryA ! i \<noteq> binaryB ! i
                 then distance + push_bit (maxLen - i - 1) 1
                 else distance)
              [0..<maxLen] 0)"

text \<open>The loop \<open>for dist > 0 { dist >>= 1; idx++ }\<close>.\<close>

function highest_bit_loop :: "64 word \<Rightarrow> int \<Rightarrow> int" where
  "highest_bit_loop d idx =
     (if d = 0 then idx else highest_bit_loop (drop_bit 1 d) (idx + 1))"
  by pat_completeness auto
termination
proof (relation "measure (\<lambda>(d, idx). unat d)")
  show "wf (measure (\<lambda>(d :: 64 word, idx :: int). unat d))"
    by simp
next
  fix d :: "64 word" and idx :: int
  assume "d \<noteq> 0"
  then have "0 < unat d"
    by (simp add: unat_gt_0)
  then have "unat d div 2 < unat d"
    by simp
  then show "((drop_bit 1 d, idx + 1), (d, idx)) \<in> measure (\<lambda>(d, idx). unat d)"
    by (simp add: drop_bit_eq_div unat_div)
qed

declare highest_bit_loop.simps [simp del]

definition GetGeoBucketIndex :: "string \<Rightarrow> string \<Rightarrow> int \<Rightarrow> int" where
  "GetGeoBucketIndex hashA hashB totalBits =
     (let d = XorDistance (ToBinary hashA) (ToBinary hashB)
      in if d = 0 then 0 else highest_bit_loop d 0)"

section \<open>K-bucket construction\<close>

record LatLonCoordinate =
  Lat :: rat
  Lon :: rat

text \<open>A loop whose body may panic: the first panic ends the run.\<close>

fun loop_opt :: "('a \<Rightarrow> 's \<Rightarrow> 's option) \<Rightarrow> 'a list \<Rightarrow> 's \<Rightarrow> 's option" where
  "loop_opt body [] s = Some s"
| "loop_opt body (x # xs) s =
     (case body x s of None \<Rightarrow> None | Some s' \<Rightarrow> loop_opt body xs s')"

text \<open>\<open>InitializeKBuckets\<close>: \<open>n\<close> rows of \<open>totalBits + 1\<close> empty buckets; \<open>make\<close> panics
  on a negative length.\<close>

definition InitializeKBuckets :: "int \<Rightarrow> int \<Rightarrow> int list list list option" where
  "InitializeKBuckets n totalBits =
     (if n < 0 then None
      else if 0 < n \<and> totalBits + 1 < 0 then None
      else Some (replicate (nat n) (replicate (nat (totalBits + 1)) [])))"

text \<open>
  \<open>DedupIntsStable\<close>: slices of length at most one are returned as they are; otherwise
  the elements are copied in order, skipping those already in the \<open>seen\<close> map.
\<close>

fun dedup_loop :: "int set \<Rightarrow> int list \<Rightarrow> int list \<Rightarrow> int list" where
  "dedup_loop seen [] out = out"
| "dedup_loop seen (v # vs) out =
     (if v \<in> seen then dedup_loop seen vs out
      else dedup_loop (insert v seen) vs (out @ [v]))"

definition DedupIntsStable :: "int list \<Rightarrow> int list" where
  "DedupIntsStable xs = (if length xs \<le> 1 then xs else dedup_loop {} xs [])"

text \<open>
  The candidate sort of \<open>FillOtherKBuckets\<close>: for every \<open>a\<close>, every later position \<open>b\<close>
  is compared with position \<open>a\<close> and the two entries are exchanged when the earlier
  distance is greater.
\<close>

type_synonym cand = "rat \<times> int"

definition swap_at :: "'a list \<Rightarrow> nat \<Rightarrow> nat \<Rightarrow> 'a list" where
  "swap_at cs a b = cs[a := cs ! b, b := cs ! a]"

definition sort_inner :: "nat \<Rightarrow> cand list \<Rightarrow> cand list" where
  "sort_inner a cs =
     fold (\<lambda>b c. if fst (c ! a) > fst (c ! b) then swap_at c a b else c) [a + 1..<length cs] cs"

definition sort_candidates :: "cand list \<Rightarrow> cand list" where
  "sort_candidates cs = fold sort_inner [0..<length cs - 1] cs"

text \<open>
  The parameters of one \<open>FillOtherKBuckets\<close> call.  \<open>Distance\<close> (haversine, built from
  trigonometric functions) is a parameter of the model.
\<close>

record fill_params =
  nodeGeohashBinary :: "string list"
  coords :: "LatLonCoordinate list"
  DistanceOf :: "LatLonCoordinate \<Rightarrow> LatLonCoordinate \<Rightarrow> rat"
  bucketSize :: int
  totalBits :: int

text \<open>The body of the inner loop over \<open>j\<close>, for node \<open>i\<close>; the state is the bucket row
  of \<open>i\<close>, the candidates gathered so far and the connection counter.\<close>

definition scan_node :: "fill_params \<Rightarrow> int \<Rightarrow> int
    \<Rightarrow> int list list \<times> cand list \<times> int \<Rightarrow> (int list list \<times> cand list \<times> int) option" where
  "scan_node P i j st =
     (case st of (kb, candidates, connections) \<Rightarrow>
      if i = j then Some st
      else do {
        binI \<leftarrow> go_index (nodeGeohashBinary P) i;
        binJ \<leftarrow> go_index (nodeGeohashBinary P) j;
        let diffPos = FirstDiffBitPos binI binJ;
        if diffPos = - 1 then Some st
        else
          (let calcBucketIdx = totalBits P - diffPos in
           if calcBucketIdx \<ge> 1 \<and> calcBucketIdx \<le> totalBits P then
             do {
               bucket \<leftarrow> go_index kb calcBucketIdx;
               if int (length bucket) < bucketSize P then
                 do {
                   ci \<leftarrow> go_index (coords P) i;
                   cj \<leftarrow> go_index (coords P) j;
                   Some (go_store kb calcBucketIdx (bucket @ [j]),
                         candidates @ [(DistanceOf P ci cj, j)],
                         connections + 1)
                 }
               else Some st
             }
           else Some st)
      })"

text \<open>The body of the loop over the outer bucket index.\<close>

definition fill_bucket :: "fill_params \<Rightarrow> int \<Rightarrow> int
    \<Rightarrow> int list list \<times> int \<Rightarrow> (int list list \<times> int) option" where
  "fill_bucket P i bucketIdx st =
     (case st of (kb, connections) \<Rightarrow>
      do {
        outer \<leftarrow> go_index kb bucketIdx;
        if int (length outer) \<ge> bucketSize P then Some st
        else do {
          (kb1, candidates, connections1) \<leftarrow>
            loop_opt (scan_node P i) [0..int (length (nodeGeohashBinary P)) - 1] (kb, [], connections);
          let sorted_cands = sort_candidates candidates;
          let limit = min (bucketSize P) (int (length candidates));
          outer1 \<leftarrow> go_index kb1 bucketIdx;
          Some (go_store kb1 bucketIdx
                  (fold (\<lambda>c b. b @ [snd (sorted_cands ! c)]) [0..<nat limit] outer1),
                connections1 + int (nat limit))
        }
      })"

definition dedup_bucket :: "int \<Rightarrow> int list list \<Rightarrow> int list list option" where
  "dedup_bucket b kb =
     do { bucket \<leftarrow> go_index kb b; Some (go_store kb b (DedupIntsStable bucket)) }"

text \<open>Everything \<open>FillOtherKBuckets\<close> does for node \<open>i\<close>.\<close>

definition fill_node :: "fill_params \<Rightarrow> int \<Rightarrow> int list list \<times> int
    \<Rightarrow> (int list list \<times> int) option" where
  "fill_node P i st =
     do {
       (kb1, connections1) \<leftarrow> loop_opt (fill_bucket P i) [1..totalBits P] st;
       kb2 \<leftarrow> loop_opt dedup_bucket [0..totalBits P] kb1;
       Some (kb2, connections1)
     }"

definition FillOtherKBuckets :: "fill_params \<Rightarrow> int list list list
    \<Rightarrow> (int list list list \<times> int) option" where
  "FillOtherKBuckets P kBuckets =
     loop_opt (\<lambda>i st. case st of (kbs, connections) \<Rightarrow>
                 do {
                   row \<leftarrow> go_index kbs i;
                   (row', connections') \<leftarrow> fill_node P i (row, connections);
                   Some (go_store kbs i row', connections')
                 })
       [0..int (length (nodeGeohashBinary P)) - 1] (kBuckets, 0)"

text \<open>One pass of the inner sort loop, seen on the list: the entry at the head position
  meets every later entry in turn and changes places with each one that is smaller.
  (Used to reason about \<open>sort_inner\<close>.)\<close>

fun sift :: "cand \<Rightarrow> cand list \<Rightarrow> cand \<times> cand list" where
  "sift x [] = (x, [])"
| "sift x (y # ys) =
     (if fst x > fst y then (case sift y ys of (m, r) \<Rightarrow> (m, x # r))
      else (case sift x ys of (m, r) \<Rightarrow> (m, y # r)))"

subsection \<open>The fill as the specification words it\<close>

text \<open>
  The same procedure written from the specification: plain lists, natural-number
  indices, no panics.  \<open>first_occurrences\<close> is the stable deduplication; the choice of
  \<open>the candidates of smallest distance\<close> is left to a sorting routine \<open>srt\<close>, of which
  the specification only asks an ascending rearrangement (\<open>sorts_by_distance\<close>).
\<close>

fun first_occurrences :: "int list \<Rightarrow> int list" where
  "first_occurrences [] = []"
| "first_occurrences (x # xs) = x # first_occurrences (filter (\<lambda>y. y \<noteq> x) xs)"

definition sorts_by_distance :: "(cand list \<Rightarrow> cand list) \<Rightarrow> bool" where
  "sorts_by_distance srt = (\<forall>cs. sorted (map fst (srt cs)) \<and> mset (srt cs) = mset cs)"

definition spec_scan :: "fill_params \<Rightarrow> nat \<Rightarrow> nat \<Rightarrow> int list list \<times> cand list
    \<Rightarrow> int list list \<times> cand list" where
  "spec_scan P i j st =
     (case st of (kb, cands) \<Rightarrow>
      let realBucket = totalBits P - FirstDiffBitPos (nodeGeohashBinary P ! i) (nodeGeohashBinary P ! j)
      in if j \<noteq> i \<and> 1 \<le> realBucket \<and> realBucket \<le> totalBits P
            \<and> int (length (kb ! nat realBucket)) < bucketSize P
         then (kb[nat realBucket := kb ! nat realBucket @ [int j]],
               cands @ [(DistanceOf P (coords P ! i) (coords P ! j), int j)])
         else st)"

definition spec_fill_bucket :: "(cand list \<Rightarrow> cand list) \<Rightarrow> fill_params \<Rightarrow> nat \<Rightarrow> nat
    \<Rightarrow> int list list \<Rightarrow> int list list" where
  "spec_fill_bucket srt P i B kb =
     (if int (length (kb ! B)) \<ge> bucketSize P then kb
      else (case fold (spec_scan P i) [0..<length (nodeGeohashBinary P)] (kb, []) of
              (kb1, cands) \<Rightarrow>
                kb1[B := kb1 ! B @
                      map snd (take (nat (min (bucketSize P) (int (length cands)))) (srt cands))]))"

definition spec_fill_node :: "(cand list \<Rightarrow> cand list) \<Rightarrow> fill_params \<Rightarrow> nat
    \<Rightarrow> int list list \<Rightarrow> int list list" where
  "spec_fill_node srt P i kb =
     map first_occurrences (fold (spec_fill_bucket srt P i) [1..<nat (totalBits P) + 1] kb)"

text \<open>The shape the constructor gives a row: \<open>totalBits + 1\<close> buckets, and a
  coordinate for every node.\<close>

definition fill_shape :: "fill_params \<Rightarrow> int list list \<Rightarrow> bool" where
  "fill_shape P kb =
     (0 \<le> totalBits P \<and> length kb = nat (totalBits P) + 1 \<and>
      length (nodeGeohashBinary P) \<le> length (coords P))"

text \<open>
  Three nodes at precision 1 (hashes \<open>0\<close>, \<open>1\<close>, \<open>h\<close>), bucket size 2, with a toy distance.
  Node 2 first differs from node 0 in bit 0, so its real bucket is 5; the second write
  of the outer rounds \<open>B = 1\<close> and \<open>B = 2\<close> puts it into buckets 1 and 2 of node 0 as
  well.
\<close>

definition quirk_params :: fill_params where
  "quirk_params =
     \<lparr>nodeGeohashBinary = [''00000'', ''00001'', ''10000''],
      coords = [\<lparr>Lat = 0, Lon = 0\<rparr>, \<lparr>Lat = 1, Lon = 0\<rparr>, \<lparr>Lat = 0, Lon = 50\<rparr>],
      DistanceOf = (\<lambda>a b. \<bar>Lat a - Lat b\<bar> + \<bar>Lon a - Lon b\<bar>),
      bucketSize = 2,
      totalBits = 5\<rparr>"

section \<open>Messages\<close>

text \<open>
  Times are Go \<open>float64\<close> values.  A finite double is a rational number, so times are
  modelled in \<open>rat\<close>; sums and quotients are the exact ones.
\<close>

record Message =
  Root :: int
  Src :: int
  Dst :: int
  Step :: int
  SendTime :: rat
  RecvTime :: rat

definition NewMessage :: "int \<Rightarrow> int \<Rightarrow> int \<Rightarrow> int \<Rightarrow> rat \<Rightarrow> rat \<Rightarrow> Message" where
  "NewMessage rootId src dst step sendTime recvTime =
     \<lparr>Root = rootId, Src = src, Dst = dst, Step = step, SendTime = sendTime, RecvTime = recvTime\<rparr>"

section \<open>Mercator: per-broadcast state and forwarding\<close>

definition MaxDepth :: int where
  "MaxDepth = 40"

definition GeoBitsPerChar :: int where
  "GeoBitsPerChar = 5"

record KaryMessage =
  RootNode :: int
  IsKary :: bool

text \<open>
  The fields of the \<open>Mercator\<close> struct that \<open>Respond\<close> and \<open>SetRoot\<close> read or write.
  \<open>GeohashGroups\<close> is a Go map from hash to node list; a missing key reads as the empty
  slice.  \<open>KaryMsgInfo\<close> holds one freshly allocated \<open>KaryMessage\<close> per node.
\<close>

record Mercator =
  NodeGeohash :: "string list"
  KBuckets :: "int list list list"
  GeohashGroups :: "string \<Rightarrow> int list"
  TreeRoot :: int
  Visited :: "bool list list"
  K0Threshold :: int
  KaryFactor :: int
  TotalBits :: int
  KaryMsgInfo :: "KaryMessage list"

text \<open>\<open>ResetVisited\<close>: two index loops, each assigning in place.\<close>

definition clear_row :: "bool list \<Rightarrow> bool list" where
  "clear_row row = fold (\<lambda>j r. r[j := False]) [0..<length row] row"

definition clear_visited :: "bool list list \<Rightarrow> bool list list" where
  "clear_visited vis = fold (\<lambda>i v. v[i := clear_row (v ! i)]) [0..<length vis] vis"

definition clear_kary :: "KaryMessage list \<Rightarrow> KaryMessage list" where
  "clear_kary ks =
     fold (\<lambda>i k. k[i := (k ! i)\<lparr>RootNode := - 1, IsKary := False\<rparr>]) [0..<length ks] ks"

definition ResetVisited :: "Mercator \<Rightarrow> Mercator" where
  "ResetVisited m = m\<lparr>Visited := clear_visited (Visited m), KaryMsgInfo := clear_kary (KaryMsgInfo m)\<rparr>"

definition SetRoot :: "Mercator \<Rightarrow> int \<Rightarrow> Mercator" where
  "SetRoot m rootId = ResetVisited (m\<lparr>TreeRoot := rootId\<rparr>)"

text \<open>\<open>ComputeKaryChildren\<close>: the indices \<open>nodeIdx * k + i\<close>, \<open>i = 1..k\<close>, that are below
  \<open>totalNodes\<close>.\<close>

definition ComputeKaryChildren :: "int \<Rightarrow> int \<Rightarrow> int \<Rightarrow> int list" where
  "ComputeKaryChildren nodeIdx totalNodes k =
     filter (\<lambda>childIdx. childIdx < totalNodes) (map (\<lambda>i. nodeIdx * k + i) [1..k])"

text \<open>The loop shared by every bucket walk: append the members that are not the sender.\<close>

definition not_src :: "int \<Rightarrow> int list \<Rightarrow> int list" where
  "not_src src bucket = filter (\<lambda>v. v \<noteq> src) bucket"

text \<open>
  The K-ary expansion inside one same-hash group.  The group slice is sorted in place
  (so the map entry stays sorted), the position of \<open>u\<close> is looked up, and every child
  other than the sender is appended and marked with the subtree root.
\<close>

fun position_of :: "int \<Rightarrow> int \<Rightarrow> int list \<Rightarrow> int" where
  "position_of i u [] = - 1"
| "position_of i u (x # xs) = (if x = u then i else position_of (i + 1) u xs)"

fun kary_mark :: "int list \<Rightarrow> int \<Rightarrow> int \<Rightarrow> int list \<Rightarrow> int list \<times> KaryMessage list
    \<Rightarrow> (int list \<times> KaryMessage list) option" where
  "kary_mark same src kroot [] acc = Some acc"
| "kary_mark same src kroot (childIdx # rest) (relay, info) =
     (if childIdx < int (length same) then
        (case go_index same childIdx of
           None \<Rightarrow> None
         | Some v \<Rightarrow>
             if v \<noteq> src then
               (case go_index info v of
                  None \<Rightarrow> None
                | Some k \<Rightarrow>
                    kary_mark same src kroot rest
                      (relay @ [v], go_store info v (k\<lparr>RootNode := kroot, IsKary := True\<rparr>)))
             else kary_mark same src kroot rest (relay, info))
      else kary_mark same src kroot rest (relay, info))"

definition kary_expand :: "Mercator \<Rightarrow> string \<Rightarrow> int \<Rightarrow> int \<Rightarrow> int \<Rightarrow> int list
    \<Rightarrow> (int list \<times> Mercator) option" where
  "kary_expand m h u src kroot relay =
     (let sameGeohashNodes = sort (GeohashGroups m h);
          m1 = m\<lparr>GeohashGroups := (GeohashGroups m)(h := sameGeohashNodes)\<rparr>;
          uIdx = position_of 0 u sameGeohashNodes
      in if uIdx \<noteq> - 1 then
           (case kary_mark sameGeohashNodes src kroot
                   (ComputeKaryChildren uIdx (int (length sameGeohashNodes)) (KaryFactor m))
                   (relay, KaryMsgInfo m1) of
              None \<Rightarrow> None
            | Some (relay', info') \<Rightarrow> Some (relay', m1\<lparr>KaryMsgInfo := info'\<rparr>))
         else Some (relay, m1))"

text \<open>K0 handling: flood the bucket when it is within the threshold, otherwise start a
  K-ary tree rooted at \<open>u\<close>.\<close>

definition k0_forward :: "Mercator \<Rightarrow> int \<Rightarrow> int \<Rightarrow> int list \<Rightarrow> (int list \<times> Mercator) option" where
  "k0_forward m u src relay =
     do {
       kb \<leftarrow> go_index (KBuckets m) u;
       k0 \<leftarrow> go_index kb 0;
       if int (length k0) \<le> K0Threshold m then Some (relay @ not_src src k0, m)
       else do {
         h \<leftarrow> go_index (NodeGeohash m) u;
         kary_expand m h u src u relay
       }
     }"

text \<open>The walk over the outer buckets \<open>1 \<le> bucketIdx < limit\<close> of node \<open>u\<close>.\<close>

fun outer_walk :: "int list list \<Rightarrow> int \<Rightarrow> int list \<Rightarrow> int list \<Rightarrow> int list option" where
  "outer_walk kb src [] relay = Some relay"
| "outer_walk kb src (bucketIdx # rest) relay =
     (case go_index kb bucketIdx of
        None \<Rightarrow> None
      | Some bucket \<Rightarrow> outer_walk kb src rest (relay @ not_src src bucket))"

definition outer_forward :: "Mercator \<Rightarrow> int \<Rightarrow> int \<Rightarrow> int \<Rightarrow> int list \<Rightarrow> int list option" where
  "outer_forward m u src limit relay =
     (if limit \<le> 1 then Some relay
      else do {
        kb \<leftarrow> go_index (KBuckets m) u;
        outer_walk kb src [1..limit - 1] relay
      })"

definition Respond :: "Mercator \<Rightarrow> Message \<Rightarrow> (int list \<times> Mercator) option" where
  "Respond m msg =
     (let u = Dst msg in
      do {
        row \<leftarrow> go_index (Visited m) u;
        seen \<leftarrow> go_index row (Step msg);
        if seen then Some ([], m)
        else
          (let m1 = m\<lparr>Visited := go_store (Visited m) u (go_store row (Step msg) True)\<rparr> in
           if Step msg = 0 then
             do {
               (relay, m2) \<leftarrow> k0_forward m1 u (Src msg) [];
               kb \<leftarrow> go_index (KBuckets m2) u;
               relay' \<leftarrow> outer_forward m2 u (Src msg) (int (length kb)) relay;
               Some (relay', m2)
             }
           else
             do {
               hu \<leftarrow> go_index (NodeGeohash m1) u;
               hs \<leftarrow> go_index (NodeGeohash m1) (Src msg);
               let srcBucket = GetGeoBucketIndex hu hs (TotalBits m1);
               info \<leftarrow> go_index (KaryMsgInfo m1) u;
               (relay, m2) \<leftarrow>
                 (if IsKary info then
                    do {
                      hr \<leftarrow> go_index (NodeGeohash m1) (RootNode info);
                      kary_expand m1 hr u (Src msg) (RootNode info) []
                    }
                  else if srcBucket > 0 then k0_forward m1 u (Src msg) []
                  else Some ([], m1));
               relay' \<leftarrow> outer_forward m2 u (Src msg) srcBucket relay;
               Some (relay', m2)
             })
      })"

text \<open>
  A three-node overlay in one Geohash cell (precision 1, so \<open>TotalBits = 5\<close>), as the
  constructor leaves it: every K0 bucket holds the two other nodes, every outer bucket is
  empty, nothing is visited.  \<open>relay_msg\<close> is the step-1 message node 1 receives from
  node 0.
\<close>

definition same_cell_net :: Mercator where
  "same_cell_net =
     \<lparr>NodeGeohash = [''s'', ''s'', ''s''],
      KBuckets = [[[1, 2], [], [], [], [], []],
                  [[0, 2], [], [], [], [], []],
                  [[0, 1], [], [], [], [], []]],
      GeohashGroups = (\<lambda>h. if h = ''s'' then [0, 1, 2] else []),
      TreeRoot = 0,
      Visited = replicate 3 (replicate 41 False),
      K0Threshold = 9999,
      KaryFactor = 3,
      TotalBits = 5,
      KaryMsgInfo = replicate 3 \<lparr>RootNode = - 1, IsKary = False\<rparr>\<rparr>"

definition relay_msg :: Message where
  "relay_msg = NewMessage 0 0 1 1 250 251"

section \<open>Delays\<close>

text \<open>
  \<open>Distance\<close> returns \<open>0\<close> for two points within 0.1 degree on both axes and the
  haversine delay otherwise; the trigonometric branch is the parameter \<open>hav\<close>.
\<close>

definition Distance :: "(LatLonCoordinate \<Rightarrow> LatLonCoordinate \<Rightarrow> rat)
    \<Rightarrow> LatLonCoordinate \<Rightarrow> LatLonCoordinate \<Rightarrow> rat" where
  "Distance hav a b =
     (if \<bar>Lat a - Lat b\<bar> < 1 / 10 \<and> \<bar>Lon a - Lon b\<bar> < 1 / 10 then 0 else hav a b)"

definition CalculateTransmissionDelay :: "rat \<Rightarrow> rat \<Rightarrow> rat" where
  "CalculateTransmissionDelay dataSize bandwidth = (dataSize * 8 / bandwidth) * 1000"

definition CalculatePropagationDelay :: "(LatLonCoordinate \<Rightarrow> LatLonCoordinate \<Rightarrow> rat)
    \<Rightarrow> int \<Rightarrow> int \<Rightarrow> LatLonCoordinate list \<Rightarrow> rat \<Rightarrow> rat \<Rightarrow> rat option" where
  "CalculatePropagationDelay hav u v cs bandwidth dataSize =
     do {
       cu \<leftarrow> go_index cs u;
       cv \<leftarrow> go_index cs v;
       let distDelay = Distance hav cu cv * 3;
       let dataDelay = CalculateTransmissionDelay dataSize bandwidth;
       Some (distDelay + dataDelay)
     }"

definition FixedDelay :: rat where
  "FixedDelay = 250"

definition Clamp :: "rat \<Rightarrow> rat \<Rightarrow> rat \<Rightarrow> rat" where
  "Clamp val mn mx = (if val < mn then mn else if val > mx then mx else val)"

text \<open>\<open>CalculateProcessingDelay\<close>, as a function of the normal draw it consumes.\<close>

definition CalculateProcessingDelay :: "rat \<Rightarrow> rat" where
  "CalculateProcessingDelay draw = (FixedDelay - 50) + Clamp draw 0 100"

section \<open>The message queue: \<open>container/heap\<close> over \<open>RecvTime\<close>\<close>

definition Less :: "Message list \<Rightarrow> nat \<Rightarrow> nat \<Rightarrow> bool" where
  "Less mq i j = (RecvTime (mq ! i) < RecvTime (mq ! j))"

function heap_up :: "Message list \<Rightarrow> nat \<Rightarrow> Message list" where
  "heap_up h j =
     (let i = (j - 1) div 2 in
      if i = j \<or> \<not> Less h j i then h else heap_up (swap_at h i j) i)"
  by pat_completeness auto
termination
  by (relation "measure (\<lambda>(h, j). j)") auto

declare heap_up.simps [simp del]

function heap_down :: "Message list \<Rightarrow> nat \<Rightarrow> nat \<Rightarrow> Message list" where
  "heap_down h i n =
     (let j1 = 2 * i + 1 in
      if j1 \<ge> n then h
      else (let j = (if j1 + 1 < n \<and> Less h (j1 + 1) j1 then j1 + 1 else j1) in
            if \<not> Less h j i then h else heap_down (swap_at h i j) j n))"
  by pat_completeness auto
termination
  by (relation "measure (\<lambda>(h, i, n). n - i)") (auto simp: Let_def)

declare heap_down.simps [simp del]

definition heap_Push :: "Message list \<Rightarrow> Message \<Rightarrow> Message list" where
  "heap_Push h x = heap_up (h @ [x]) (length h)"

text \<open>\<open>heap.Pop\<close> on a non-empty queue: exchange first and last, sift the new first
  entry down inside the first \<open>n\<close> entries, remove and return the last.\<close>

definition heap_Pop :: "Message list \<Rightarrow> Message \<times> Message list" where
  "heap_Pop h =
     (let n = length h - 1;
          h1 = heap_down (swap_at h 0 n) 0 n
      in (last h1, butlast h1))"

section \<open>The simulator\<close>

record TestResult =
  AvgBandwidth :: rat
  AvgLatency :: rat
  Latency :: "rat list"
  DepthCDF :: "rat list"
  AvgDist :: "rat list"
  ClusterAvgLatency :: "rat list"
  ClusterAvgDepth :: "rat list"
  SuccessChildren :: "int list list"

definition K :: int where
  "K = 8"

definition inf_sentinel :: rat where
  "inf_sentinel = 100000000"

definition NewTestResult :: "nat \<Rightarrow> TestResult" where
  "NewTestResult n =
     \<lparr>AvgBandwidth = 0, AvgLatency = 0,
      Latency = replicate 21 0,
      DepthCDF = replicate (nat MaxDepth) 0,
      AvgDist = replicate (nat MaxDepth) 0,
      ClusterAvgLatency = replicate (nat K) 0,
      ClusterAvgDepth = replicate (nat K) 0,
      SuccessChildren = replicate n []\<rparr>"

text \<open>The \<open>Algorithm\<close> interface, over the state \<open>'s\<close> of the implementing struct.\<close>

record 's Algorithm =
  algoRespond :: "'s \<Rightarrow> Message \<Rightarrow> (int list \<times> 's) option"
  algoSetRoot :: "'s \<Rightarrow> int \<Rightarrow> 's"

definition MercatorAlgorithm :: "Mercator Algorithm" where
  "MercatorAlgorithm = \<lparr>algoRespond = Respond, algoSetRoot = SetRoot\<rparr>"

text \<open>
  What a call of \<open>SingleRootSimulation\<close> is given, together with the two things the
  model does not compute: the haversine branch of \<open>Distance\<close> and the successive draws
  of \<open>RandomNormal(50, 10)\<close>.  \<open>clusterIDs\<close> is \<open>None\<close> for a nil \<open>clusterResult\<close>.
\<close>

record sim_setup =
  simRoot :: int
  simCoords :: "LatLonCoordinate list"
  malFlags :: "bool list"
  leaveFlags :: "bool list"
  Bandwidth :: rat
  DataSize :: rat
  clusterIDs :: "int list option"
  haversine :: "LatLonCoordinate \<Rightarrow> LatLonCoordinate \<Rightarrow> rat"
  normalDraw :: "nat \<Rightarrow> rat"

text \<open>The variables of one repetition, plus what outlives it: the algorithm's state,
  \<open>successChildren\<close> and the number of normal draws consumed.\<close>

record 's sim_state =
  msgQueue :: "Message list"
  recvFlag :: "bool list"
  recvTime :: "rat list"
  recvDist :: "rat list"
  recvParent :: "int list"
  depth :: "int list"
  recvList :: "int list"
  dupMsg :: int
  successChildren :: "int list list"
  algoState :: "'s"
  draws :: nat

definition init_state :: "sim_setup \<Rightarrow> int list list \<Rightarrow> 's \<Rightarrow> nat \<Rightarrow> 's sim_state" where
  "init_state S sc a k =
     (let n = length (simCoords S) in
      \<lparr>msgQueue = heap_Push [] (NewMessage (simRoot S) (simRoot S) (simRoot S) 0 0 0),
       recvFlag = replicate n False,
       recvTime = replicate n 0,
       recvDist = replicate n 0,
       recvParent = replicate n (- 1),
       depth = replicate n 0,
       recvList = [],
       dupMsg = 0,
       successChildren = sc,
       algoState = a,
       draws = k\<rparr>)"

text \<open>The forwarding loop over \<open>relayList\<close>: one message per target, every one with
  coefficient 3 on the distance delay (\<open>CalculatePropagationDelay\<close>).\<close>

definition emit :: "sim_setup \<Rightarrow> Message \<Rightarrow> rat \<Rightarrow> rat \<Rightarrow> int \<Rightarrow> Message list
    \<Rightarrow> Message list option" where
  "emit S msg recvTime_u delayTime v q =
     do {
       d \<leftarrow> CalculatePropagationDelay (haversine S) (Dst msg) v (simCoords S)
             (Bandwidth S) (DataSize S);
       Some (heap_Push q (NewMessage (simRoot S) (Dst msg) v (Step msg + 1)
                            (recvTime_u + delayTime) (recvTime_u + d + delayTime)))
     }"

text \<open>One iteration of \<open>for !msgQueue.Empty()\<close>, on a non-empty queue.\<close>

definition sim_step :: "'s Algorithm \<Rightarrow> sim_setup \<Rightarrow> 's sim_state \<Rightarrow> 's sim_state option" where
  "sim_step A S st0 =
     (case heap_Pop (msgQueue st0) of (msg, q) \<Rightarrow>
      let u = Dst msg; st = st0\<lparr>msgQueue := q\<rparr> in
      do {
        flag \<leftarrow> go_index (recvFlag st) u;
        if flag then Some (st\<lparr>dupMsg := dupMsg st + 1\<rparr>)
        else do {
          sc \<leftarrow> (if Src msg \<noteq> u then
                   do {
                     ch \<leftarrow> go_index (successChildren st) (Src msg);
                     Some (go_store (successChildren st) (Src msg) (ch @ [u]))
                   }
                 else Some (successChildren st));
          dp \<leftarrow> (if u \<noteq> simRoot S then
                   do {
                     ds \<leftarrow> go_index (depth st) (Src msg);
                     Some (go_store (depth st) u (ds + 1))
                   }
                 else Some (depth st));
          let st1 = st\<lparr>successChildren := sc,
                        recvFlag := go_store (recvFlag st) u True,
                        recvTime := go_store (recvTime st) u (RecvTime msg),
                        recvDist := go_store (recvDist st) u (RecvTime msg - SendTime msg),
                        recvParent := go_store (recvParent st) u (Src msg),
                        recvList := recvList st @ [u],
                        depth := dp\<rparr>;
          mal \<leftarrow> go_index (malFlags S) u;
          lv \<leftarrow> (if mal then Some True else go_index (leaveFlags S) u);
          if lv then Some st1
          else do {
            (relayList, a') \<leftarrow> algoRespond A (algoState st1) msg;
            let delayTime = CalculateProcessingDelay (normalDraw S (draws st1));
            q' \<leftarrow> loop_opt (emit S msg (RecvTime msg) delayTime) relayList (msgQueue st1);
            Some (st1\<lparr>msgQueue := q', algoState := a', draws := draws st1 + 1\<rparr>)
          }
        }
      })"

text \<open>Facts needed to see that the event loop ends.\<close>

lemma length_swap_at: "length (swap_at xs a b) = length xs"
  by (simp add: swap_at_def)

lemma length_heap_up: "length (heap_up h j) = length h"
proof (induction h j rule: heap_up.induct)
  case (1 h j)
  then show ?case
    by (subst heap_up.simps) (auto simp: Let_def length_swap_at)
qed

lemma length_heap_down: "length (heap_down h i n) = length h"
proof (induction h i n rule: heap_down.induct)
  case (1 h i n)
  then show ?case
    by (subst heap_down.simps) (auto simp: Let_def length_swap_at)
qed

lemma length_heap_Push: "length (heap_Push h x) = length h + 1"
  by (simp add: heap_Push_def length_heap_up)

lemma length_heap_Pop: "length (snd (heap_Pop h)) = length h - 1"
  by (simp add: heap_Pop_def Let_def length_heap_down length_swap_at)


lemma count_False_store:
  "go_index fl u = Some False \<Longrightarrow>
   count_list (go_store fl u True) False < count_list fl False"
proof -
  assume a: "go_index fl u = Some False"
  then have r: "nat u < length fl" "fl ! nat u = False"
    by (auto simp: go_index_def in_range_def split: if_splits)
  have "count_list (xs[k := True]) False < count_list xs False"
    if "k < length xs" "xs ! k = False" for xs :: "bool list" and k
    using that
  proof (induction xs arbitrary: k)
    case Nil
    then show ?case by simp
  next
    case (Cons x xs)
    then show ?case by (cases k) auto
  qed
  then show ?thesis using r by (simp add: go_store_def)
qed

lemma sim_step_decreases:
  assumes "sim_step A S st = Some st'"
  shows "count_list (recvFlag st') False < count_list (recvFlag st) False \<or>
         (count_list (recvFlag st') False = count_list (recvFlag st) False \<and>
          length (msgQueue st') = length (msgQueue st) - 1)"
proof -
  obtain msg q where pop: "heap_Pop (msgQueue st) = (msg, q)"
    by (cases "heap_Pop (msgQueue st)")
  then have lq: "length q = length (msgQueue st) - 1"
    using length_heap_Pop [of "msgQueue st"] by simp
  from assms pop obtain flag where fl: "go_index (recvFlag st) (Dst msg) = Some flag"
    by (auto simp: sim_step_def Let_def split: Option.bind_splits)
  show ?thesis
  proof (cases flag)
    case True
    with assms pop fl lq show ?thesis
      by (auto simp: sim_step_def Let_def)
  next
    case False
    with assms pop fl have "recvFlag st' = go_store (recvFlag st) (Dst msg) True"
      by (auto simp: sim_step_def Let_def split: Option.bind_splits if_splits prod.splits)
    then show ?thesis using count_False_store fl False by simp
  qed
qed

text \<open>The event loop.  It ends: a first reception clears one \<open>recvFlag\<close>, a duplicate
  only shortens the queue.\<close>

function sim_loop :: "'s Algorithm \<Rightarrow> sim_setup \<Rightarrow> 's sim_state \<Rightarrow> 's sim_state option" where
  "sim_loop A S st =
     (if msgQueue st = [] then Some st
      else (case sim_step A S st of None \<Rightarrow> None | Some st' \<Rightarrow> sim_loop A S st'))"
  by pat_completeness auto
termination
proof (relation "inv_image (less_than <*lex*> less_than)
    (\<lambda>(A, S, st). (count_list (recvFlag st) False, length (msgQueue st)))")
  show "wf (inv_image (less_than <*lex*> less_than)
    (\<lambda>(A :: 's Algorithm, S :: sim_setup, st :: 's sim_state).
       (count_list (recvFlag st) False, length (msgQueue st))))"
    by (intro wf_inv_image wf_lex_prod wf_less_than)
next
  fix A :: "'s Algorithm" and S :: sim_setup and st st' :: "'s sim_state"
  assume q: "msgQueue st \<noteq> []" and step: "sim_step A S st = Some st'"
  from sim_step_decreases [OF step] q
  show "((A, S, st'), (A, S, st)) \<in> inv_image (less_than <*lex*> less_than)
    (\<lambda>(A, S, st). (count_list (recvFlag st) False, length (msgQueue st)))"
    by (cases "msgQueue st") auto
qed

declare sim_loop.simps [simp del]

subsection \<open>Statistics of one repetition\<close>

record tally =
  recvCount :: int
  avgLatency :: rat
  clusterRecvCount :: "int list"

definition bump_at :: "rat list \<Rightarrow> int \<Rightarrow> rat \<Rightarrow> rat list" where
  "bump_at xs i v = go_store xs i (xs ! nat i + v)"

text \<open>The body of the loop \<open>for i := 0; i < n; i++\<close> after the event loop: an uncovered
  node gets the sentinel time, joins \<open>recvList\<close> and is given depth \<open>MaxDepth - 1\<close>; a
  receiver is tallied.\<close>

definition mark_node :: "sim_setup \<Rightarrow> int \<Rightarrow> 's sim_state \<times> TestResult \<times> tally
    \<Rightarrow> ('s sim_state \<times> TestResult \<times> tally) option" where
  "mark_node S i x =
     (case x of (st, res, t) \<Rightarrow>
      do {
        fl \<leftarrow> go_index (recvFlag st) i;
        uncovered \<leftarrow>
          (if fl then Some False
           else do {
             mal \<leftarrow> go_index (malFlags S) i;
             if mal then Some False
             else do { lv \<leftarrow> go_index (leaveFlags S) i; Some (\<not> lv) }
           });
        if uncovered then
          Some (st\<lparr>recvTime := go_store (recvTime st) i inf_sentinel,
                   recvList := recvList st @ [i],
                   depth := go_store (depth st) i (MaxDepth - 1)\<rparr>, res, t)
        else if fl then
          do {
            rt \<leftarrow> go_index (recvTime st) i;
            let t1 = t\<lparr>recvCount := recvCount t + 1, avgLatency := avgLatency t + rt\<rparr>;
            (case clusterIDs S of
               None \<Rightarrow> Some (st, res, t1)
             | Some ids \<Rightarrow>
                 do {
                   c \<leftarrow> go_index ids i;
                   if c \<ge> 0 \<and> c < K then
                     do {
                       d \<leftarrow> go_index (depth st) i;
                       Some (st,
                             res\<lparr>ClusterAvgDepth := bump_at (ClusterAvgDepth res) c (of_int d),
                                  ClusterAvgLatency := bump_at (ClusterAvgLatency res) c rt\<rparr>,
                             t1\<lparr>clusterRecvCount :=
                                   go_store (clusterRecvCount t1) c (clusterRecvCount t1 ! nat c + 1)\<rparr>)
                     }
                   else Some (st, res, t1)
                 })
          }
        else Some x
      })"

text \<open>The depth histogram loop over \<open>recvList\<close>; the state is \<open>DepthCDF\<close>, \<open>AvgDist\<close>
  and \<open>depthCnt\<close>.\<close>

definition count_depth :: "'s sim_state \<Rightarrow> int \<Rightarrow> rat list \<times> rat list \<times> int list
    \<Rightarrow> (rat list \<times> rat list \<times> int list) option" where
  "count_depth st u x =
     (case x of (cdf, avgd, depthCnt) \<Rightarrow>
      do {
        d \<leftarrow> go_index (depth st) u;
        if d \<ge> 0 \<and> d < MaxDepth then
          do {
            rd \<leftarrow> go_index (recvDist st) u;
            Some (bump_at cdf d 1, bump_at avgd d rd, go_store depthCnt d (depthCnt ! nat d + 1))
          }
        else Some x
      })"

text \<open>
  The percentile loop \<open>for pct := 0.05; pct <= 1.0; pct += 0.05\<close> runs on a \<open>float64\<close>:
  these are the exact values the variable takes.  The twentieth value would be
  \<open>1 + 2\<^sup>-\<^sup>5\<^sup>2\<close>, which fails the test, so the body runs 19 times.
\<close>

definition pct_values :: "rat list" where
  "pct_values =
     [3602879701896397 / 72057594037927936, 3602879701896397 / 36028797018963968,
      1351079888211149 / 9007199254740992, 3602879701896397 / 18014398509481984,
      1 / 4, 5404319552844595 / 18014398509481984,
      3152519739159347 / 9007199254740992, 7205759403792793 / 18014398509481984,
      2026619832316723 / 4503599627370496, 9007199254740991 / 18014398509481984,
      4953959590107545 / 9007199254740992, 5404319552844595 / 9007199254740992,
      5854679515581645 / 9007199254740992, 6305039478318695 / 9007199254740992,
      6755399441055745 / 9007199254740992, 7205759403792795 / 9007199254740992,
      7656119366529845 / 9007199254740992, 8106479329266895 / 9007199254740992,
      8556839292003945 / 9007199254740992]"

text \<open>Go's conversion \<open>int(x)\<close> of a float truncates towards zero.\<close>

definition go_trunc :: "rat \<Rightarrow> int" where
  "go_trunc x = (if x \<ge> 0 then \<lfloor>x\<rfloor> else - \<lfloor>- x\<rfloor>)"

text \<open>One round of the percentile loop; \<open>tms\<close> is \<open>recvTime\<close> read along the sorted
  \<open>recvList\<close>, the state is \<open>Latency\<close> and \<open>cnt\<close>.\<close>

definition add_percentile :: "rat list \<Rightarrow> rat \<Rightarrow> rat list \<times> int \<Rightarrow> (rat list \<times> int) option" where
  "add_percentile tms pct x =
     (case x of (lat, cnt) \<Rightarrow>
      let nonMalNode = int (length tms);
          idx0 = go_trunc (of_int nonMalNode * pct);
          idx = (if idx0 \<ge> nonMalNode then nonMalNode - 1 else idx0)
      in do {
        t \<leftarrow> go_index tms idx;
        l \<leftarrow> go_index lat cnt;
        Some (go_store lat cnt (l + t), cnt + 1)
      })"

text \<open>The loop that marks the uncovered nodes and tallies the receivers.\<close>

definition mark_uncovered :: "sim_setup \<Rightarrow> 's sim_state \<Rightarrow> TestResult
    \<Rightarrow> ('s sim_state \<times> TestResult \<times> tally) option" where
  "mark_uncovered S st result =
     loop_opt (mark_node S) [0..int (length (simCoords S)) - 1]
       (st, result, \<lparr>recvCount = 0, avgLatency = 0, clusterRecvCount = replicate (nat K) 0\<rparr>)"

definition depth_histogram :: "'s sim_state \<Rightarrow> TestResult
    \<Rightarrow> (rat list \<times> rat list \<times> int list) option" where
  "depth_histogram st res =
     loop_opt (count_depth st) (recvList st)
       (DepthCDF res, AvgDist res, replicate (nat MaxDepth) 0)"

text \<open>\<open>recvTime\<close> read along \<open>recvList\<close>; sorting \<open>recvList\<close> by \<open>recvTime\<close> and reading
  \<open>recvTime[recvList[idx]]\<close> gives the \<open>idx\<close>-th entry of these values in ascending
  order, whatever the order \<open>sort.Slice\<close> leaves equal times in.\<close>

definition recv_times :: "'s sim_state \<Rightarrow> rat list option" where
  "recv_times st =
     loop_opt (\<lambda>u ts. do { t \<leftarrow> go_index (recvTime st) u; Some (ts @ [t]) }) (recvList st) []"

definition divide_counted :: "rat list \<Rightarrow> int list \<Rightarrow> rat list" where
  "divide_counted vs cnts = map2 (\<lambda>v c. if c > 0 then v / of_int c else v) vs cnts"

text \<open>Everything after the marking loop, up to the end of the repetition.\<close>

definition gather_stats :: "sim_setup \<Rightarrow> 's sim_state \<times> TestResult \<times> tally
    \<Rightarrow> (TestResult \<times> int list list \<times> 's \<times> nat) option" where
  "gather_stats S x =
     (case x of (st1, res1, t) \<Rightarrow>
      let avgLat = (if recvCount t > 0 then avgLatency t / of_int (recvCount t) else avgLatency t);
          res2 =
            (case clusterIDs S of
               None \<Rightarrow> res1
             | Some ids \<Rightarrow>
                 res1\<lparr>ClusterAvgDepth := divide_counted (ClusterAvgDepth res1) (clusterRecvCount t),
                       ClusterAvgLatency := divide_counted (ClusterAvgLatency res1) (clusterRecvCount t)\<rparr>);
          nonMalNode = int (length (recvList st1));
          res3 = res2\<lparr>AvgBandwidth :=
                        AvgBandwidth res2 + of_int (dupMsg st1 + nonMalNode) / of_int nonMalNode\<rparr>
      in do {
        (cdf, avgd, depthCnt) \<leftarrow> depth_histogram st1 res3;
        let res4 = res3\<lparr>AvgLatency := avgLat,
                         DepthCDF := map (\<lambda>v. v / of_int nonMalNode) cdf,
                         AvgDist := divide_counted avgd depthCnt\<rparr>;
        tms \<leftarrow> recv_times st1;
        (lat, cnt) \<leftarrow> loop_opt (add_percentile (sort tms)) pct_values (Latency res4, 0);
        Some (res4\<lparr>Latency := lat, SuccessChildren := successChildren st1\<rparr>,
              successChildren st1, algoState st1, draws st1)
      })"

text \<open>One repetition: initialise, run the event loop, mark, gather.\<close>

definition rept_body :: "'s Algorithm \<Rightarrow> sim_setup \<Rightarrow> TestResult \<times> int list list \<times> 's \<times> nat
    \<Rightarrow> (TestResult \<times> int list list \<times> 's \<times> nat) option" where
  "rept_body A S x =
     (case x of (result, sc, a, k) \<Rightarrow>
      do {
        st \<leftarrow> sim_loop A S (init_state S sc a k);
        marked \<leftarrow> mark_uncovered S st result;
        gather_stats S marked
      })"

text \<open>The closing pass over \<open>Latency\<close>: sentinel hits are taken out of the sum and of the
  divisor, and a slot that ends below 0.1 is reported as the sentinel.\<close>

definition finish_latency :: "int \<Rightarrow> rat \<Rightarrow> rat" where
  "finish_latency reptTime l =
     (let tmp = go_trunc (l / inf_sentinel);
          l1 = l - of_int tmp * inf_sentinel;
          validCount = reptTime - tmp;
          l2 = (if validCount = 0 then 0 else l1 / of_int validCount)
      in if l2 < 1 / 10 then inf_sentinel else l2)"

definition SingleRootSimulation :: "'s Algorithm \<Rightarrow> sim_setup \<Rightarrow> int \<Rightarrow> 's \<Rightarrow> TestResult option" where
  "SingleRootSimulation A S reptTime a0 =
     (let n = length (simCoords S) in
      do {
        (result, sc, a, k) \<leftarrow>
          loop_opt (\<lambda>rept. rept_body A S) [0..reptTime - 1]
            (NewTestResult n, replicate n [], algoSetRoot A a0 (simRoot S), 0);
        Some (result\<lparr>AvgBandwidth := AvgBandwidth result / of_int reptTime,
                      DepthCDF := map (\<lambda>v. v / of_int reptTime) (DepthCDF result),
                      Latency := map (finish_latency reptTime) (Latency result)\<rparr>)
      })"

section \<open>Small networks\<close>

text \<open>
  A one-node Mercator overlay as the constructor leaves it (precision 2, so eleven empty
  buckets), and the setup of a simulation on it.
\<close>

definition single_net :: Mercator where
  "single_net =
     \<lparr>NodeGeohash = [''s0''],
      KBuckets = [replicate 11 []],
      GeohashGroups = (\<lambda>h. if h = ''s0'' then [0] else []),
      TreeRoot = 0,
      Visited = [replicate 41 False],
      K0Threshold = 9999,
      KaryFactor = 3,
      TotalBits = 10,
      KaryMsgInfo = [\<lparr>RootNode = - 1, IsKary = False\<rparr>]\<rparr>"

definition single_setup :: sim_setup where
  "single_setup =
     \<lparr>simRoot = 0,
      simCoords = [\<lparr>Lat = 0, Lon = 0\<rparr>],
      malFlags = [False],
      leaveFlags = [False],
      Bandwidth = 33000000,
      DataSize = 300,
      clusterIDs = None,
      haversine = (\<lambda>a b. 0),
      normalDraw = (\<lambda>k. 50)\<rparr>"

text \<open>
  Two nodes in different cells at precision 1 (hashes \<open>0\<close> and \<open>h\<close>, first differing bit
  0, so each sits in bucket 5 of the other), 40 ms of haversine delay apart.
\<close>

definition two_net :: Mercator where
  "two_net =
     \<lparr>NodeGeohash = [''0'', ''h''],
      KBuckets = [[[], [], [], [], [], [1]], [[], [], [], [], [], [0]]],
      GeohashGroups = (\<lambda>h. if h = ''0'' then [0] else if h = ''h'' then [1] else []),
      TreeRoot = 0,
      Visited = replicate 2 (replicate 41 False),
      K0Threshold = 9999,
      KaryFactor = 3,
      TotalBits = 5,
      KaryMsgInfo = replicate 2 \<lparr>RootNode = - 1, IsKary = False\<rparr>\<rparr>"

definition two_setup :: sim_setup where
  "two_setup =
     \<lparr>simRoot = 0,
      simCoords = [\<lparr>Lat = - 80, Lon = - 170\<rparr>, \<lparr>Lat = - 80, Lon = 10\<rparr>],
      malFlags = [False, False],
      leaveFlags = [False, False],
      Bandwidth = 33000000,
      DataSize = 300,
      clusterIDs = None,
      haversine = (\<lambda>a b. 40),
      normalDraw = (\<lambda>k. 50)\<rparr>"

text \<open>What the event loop keeps true of its variables (\<open>n\<close> nodes).\<close>

definition sim_inv :: "nat \<Rightarrow> 's sim_state \<Rightarrow> bool" where
  "sim_inv n st =
     (length (recvFlag st) = n \<and> length (recvTime st) = n \<and> length (recvDist st) = n \<and>
      length (depth st) = n \<and>
      (\<forall>u \<in> set (recvList st). 0 \<le> u \<and> u < int n \<and> recvFlag st ! nat u) \<and>
      (\<forall>i < n. recvFlag st ! i \<longrightarrow> recvList st \<noteq> []))"

text \<open>A node the broadcast never reached although it is neither malicious nor absent.\<close>

definition uncovered :: "sim_setup \<Rightarrow> 's sim_state \<Rightarrow> nat \<Rightarrow> bool" where
  "uncovered S st i = (\<not> recvFlag st ! i \<and> \<not> malFlags S ! i \<and> \<not> leaveFlags S ! i)"

text \<open>What the marking loop does to the simulation variables at index \<open>i\<close>.\<close>

definition mark_state :: "sim_setup \<Rightarrow> nat \<Rightarrow> 's sim_state \<Rightarrow> 's sim_state" where
  "mark_state S i st =
     (if uncovered S st i
      then st\<lparr>recvTime := (recvTime st)[i := inf_sentinel],
               recvList := recvList st @ [int i],
               depth := (depth st)[i := MaxDepth - 1]\<rparr>
      else st)"

text \<open>The fields of a result that the marking loop leaves alone.\<close>

definition main_fields :: "TestResult \<Rightarrow> rat \<times> rat list \<times> rat list \<times> rat list" where
  "main_fields res = (AvgBandwidth res, Latency res, DepthCDF res, AvgDist res)"

definition flags_shape :: "sim_setup \<Rightarrow> nat \<Rightarrow> bool" where
  "flags_shape S n =
     (length (malFlags S) = n \<and> length (leaveFlags S) = n \<and>
      (case clusterIDs S of None \<Rightarrow> True | Some ids \<Rightarrow> length ids = n))"

text \<open>
  Three nodes at precision 1 with bucket size 1 (the table is what the constructor
  builds for the hashes \<open>0\<close>, \<open>h\<close>, \<open>z\<close>): the root 0 only knows node 1, node 1 is
  malicious, so node 2 is never reached.
\<close>

definition gap_net :: Mercator where
  "gap_net =
     \<lparr>NodeGeohash = [''0'', ''h'', ''z''],
      KBuckets = [[[], [1], [], [], [], [1]],
                  [[], [0], [], [], [2], [0]],
                  [[], [0], [], [], [1], [0]]],
      GeohashGroups = (\<lambda>h. if h = ''0'' then [0] else if h = ''h'' then [1]
                            else if h = ''z'' then [2] else []),
      TreeRoot = 0,
      Visited = replicate 3 (replicate 41 False),
      K0Threshold = 9999,
      KaryFactor = 3,
      TotalBits = 5,
      KaryMsgInfo = replicate 3 \<lparr>RootNode = - 1, IsKary = False\<rparr>\<rparr>"

definition gap_setup :: sim_setup where
  "gap_setup =
     \<lparr>simRoot = 0,
      simCoords = [\<lparr>Lat = - 80, Lon = - 170\<rparr>, \<lparr>Lat = - 80, Lon = 10\<rparr>, \<lparr>Lat = 80, Lon = 170\<rparr>],
      malFlags = [False, True, False],
      leaveFlags = [False, False, False],
      Bandwidth = 33000000,
      DataSize = 300,
      clusterIDs = None,
      haversine = (\<lambda>a b. 40),
      normalDraw = (\<lambda>k. 50)\<rparr>"

section \<open>Results about the graph\<close>

text \<open>
  Claim C6 (edge counter).  The claim asks that after any sequence of \<open>AddEdge\<close> and
  \<open>DelEdge\<close> calls the counter \<open>M\<close> equals the total length of the \<open>OutBound\<close> lists.
  \<open>DelEdge\<close> decrements \<open>M\<close> whether or not the edge was there: deleting the absent
  edge \<open>0 \<rightarrow> 1\<close> from the fresh two-node graph leaves both adjacency tables empty
  and the counter at \<open>-1\<close>.
\<close>

theorem C6_DelEdge_absent_edge_miscounts:
  "Option.bind (NewGraph 2) (\<lambda>g. DelEdge g 0 1) =
     Some \<lparr>N = 2, M = - 1, InBound = [[], []], OutBound = [[], []]\<rparr> \<and>
   out_edge_count \<lparr>N = 2, M = - 1, InBound = [[], []], OutBound = [[], []]\<rparr> = 0"
  by (simp add: NewGraph_def DelEdge_def go_index_def in_range_def go_store_def
      swap_remove_def out_edge_count_def numeral_2_eq_2)

section \<open>Results about the broadcast-local state of Mercator\<close>

lemma fold_index_update:
  "n \<le> length xs \<Longrightarrow>
   fold (\<lambda>i ys. ys[i := f (ys ! i)]) [0..<n] xs = map f (take n xs) @ drop n xs"
proof (induction n)
  case 0
  then show ?case by simp
next
  case (Suc n)
  then have n: "n < length xs" by simp
  have "fold (\<lambda>i ys. ys[i := f (ys ! i)]) [0..<Suc n] xs =
        (map f (take n xs) @ drop n xs)[n := f ((map f (take n xs) @ drop n xs) ! n)]"
    using Suc by simp
  also have "\<dots> = map f (take (Suc n) xs) @ drop (Suc n) xs"
    using n by (simp add: list_update_append nth_append take_Suc_conv_app_nth
        Cons_nth_drop_Suc [symmetric])
  finally show ?case .
qed

lemma fold_index_update_all:
  "fold (\<lambda>i ys. ys[i := f (ys ! i)]) [0..<length xs] xs = map f xs"
  using fold_index_update [of "length xs" xs f] by simp

lemma clear_row_eq: "clear_row row = replicate (length row) False"
proof -
  have "clear_row row = map (\<lambda>_. False) row"
    unfolding clear_row_def using fold_index_update_all [of "\<lambda>_. False" row] by simp
  then show ?thesis by (simp add: map_replicate_const)
qed

lemma clear_visited_eq: "clear_visited vis = map (\<lambda>row. replicate (length row) False) vis"
  unfolding clear_visited_def using fold_index_update_all [of clear_row vis]
  by (simp add: clear_row_eq)

lemma clear_kary_eq:
  "clear_kary ks = replicate (length ks) \<lparr>RootNode = - 1, IsKary = False\<rparr>"
proof -
  have "clear_kary ks = map (\<lambda>k. k\<lparr>RootNode := - 1, IsKary := False\<rparr>) ks"
    unfolding clear_kary_def
    using fold_index_update_all [of "\<lambda>k. k\<lparr>RootNode := - 1, IsKary := False\<rparr>" ks] by simp
  also have "\<dots> = map (\<lambda>_. \<lparr>RootNode = - 1, IsKary = False\<rparr>) ks"
    by (rule map_cong) simp_all
  finally show ?thesis by (simp add: map_replicate_const)
qed

text \<open>
  Claim C5 (reset contract).  Immediately after \<open>SetRoot r\<close> every entry of every
  \<open>Visited\<close> row is \<open>False\<close> (the table keeps its shape), and every \<open>KaryMsgInfo\<close>
  entry is \<open>(RootNode = -1, IsKary = False)\<close>.
\<close>

theorem C5_SetRoot_clears:
  "Visited (SetRoot m r) = map (\<lambda>row. replicate (length row) False) (Visited m) \<and>
   KaryMsgInfo (SetRoot m r) = replicate (length (KaryMsgInfo m)) \<lparr>RootNode = - 1, IsKary = False\<rparr> \<and>
   TreeRoot (SetRoot m r) = r"
  by (simp add: SetRoot_def ResetVisited_def clear_visited_eq clear_kary_eq)

section \<open>Results about forwarding\<close>

lemma XorDistance_same: "XorDistance b b = 0"
proof -
  have "fold (\<lambda>i d. if b ! i \<noteq> b ! i then d + push_bit (n - i - 1) 1 else d) xs w = w"
    for xs :: "nat list" and w :: "64 word" and n
    by (induction xs arbitrary: w) simp_all
  then show ?thesis by (simp add: XorDistance_def Let_def)
qed

lemma GetGeoBucketIndex_same: "GetGeoBucketIndex h h tb = 0"
  by (simp add: GetGeoBucketIndex_def XorDistance_same)

text \<open>
  Claim C2 as stated: a relay (\<open>Step > 0\<close>) whose K-ary flag is clear and whose sender is
  in its own cell forwards to its K0 targets.  On \<open>same_cell_net\<close> node 1 receives
  \<open>relay_msg\<close> from node 0 of the same cell; its K0 bucket \<open>[0, 2]\<close> is within the
  threshold, so the claimed relay list is \<open>[2]\<close>, but \<open>Respond\<close> returns the empty list:
  the K0 handling of a relay sits under the guard \<open>srcBucket > 0\<close>.
\<close>

theorem C2_same_cell_relay_counterexample:
  "0 < Step relay_msg \<and>
   map_option IsKary (go_index (KaryMsgInfo same_cell_net) (Dst relay_msg)) = Some False \<and>
   go_index (NodeGeohash same_cell_net) (Dst relay_msg) = Some ''s'' \<and>
   go_index (NodeGeohash same_cell_net) (Src relay_msg) = Some ''s'' \<and>
   GetGeoBucketIndex ''s'' ''s'' (TotalBits same_cell_net) = 0 \<and>
   (go_index (KBuckets same_cell_net) (Dst relay_msg) \<bind> (\<lambda>kb. go_index kb 0)) = Some [0, 2] \<and>
   int (length [0, 2 :: int]) \<le> K0Threshold same_cell_net \<and>
   not_src (Src relay_msg) [0, 2] = [2] \<and>
   map_option fst (Respond same_cell_net relay_msg) = Some []"
  by (simp add: Respond_def Let_def outer_forward_def same_cell_net_def relay_msg_def
      NewMessage_def go_index_def in_range_def go_store_def GetGeoBucketIndex_same not_src_def)

text \<open>
  Claim C2, amended: for a message with \<open>Step > 0\<close> whose receiver's K-ary flag is clear
  and whose sender falls in bucket 0 of the receiver (\<open>srcBucket = 0\<close>, in particular
  the same Geohash), \<open>Respond\<close> does not panic and returns the empty relay list: no K0
  target and no outer-bucket target.  The only state change is the \<open>Visited\<close> mark of
  \<open>(receiver, step)\<close>, set when it was clear.
\<close>

theorem C2_same_cell_relay_forwards_nothing:
  assumes "go_index (Visited m) (Dst msg) = Some row"
    and "go_index row (Step msg) = Some seen"
    and "0 < Step msg"
    and "go_index (NodeGeohash m) (Dst msg) = Some hu"
    and "go_index (NodeGeohash m) (Src msg) = Some hs"
    and "GetGeoBucketIndex hu hs (TotalBits m) = 0"
    and "go_index (KaryMsgInfo m) (Dst msg) = Some info"
    and "\<not> IsKary info"
  shows "Respond m msg =
           Some ([], if seen then m
                     else m\<lparr>Visited := go_store (Visited m) (Dst msg) (go_store row (Step msg) True)\<rparr>)"
  using assms by (simp add: Respond_def Let_def outer_forward_def)

theorem C2_same_cell_relay_witness:
  "go_index (Visited same_cell_net) 1 = Some (replicate 41 False) \<and>
   go_index (replicate 41 False) 1 = Some False \<and>
   0 < Step relay_msg \<and>
   go_index (NodeGeohash same_cell_net) (Dst relay_msg) = Some ''s'' \<and>
   go_index (NodeGeohash same_cell_net) (Src relay_msg) = Some ''s'' \<and>
   GetGeoBucketIndex ''s'' ''s'' (TotalBits same_cell_net) = 0 \<and>
   go_index (KaryMsgInfo same_cell_net) (Dst relay_msg) = Some \<lparr>RootNode = - 1, IsKary = False\<rparr> \<and>
   Respond same_cell_net relay_msg =
     Some ([], same_cell_net\<lparr>Visited :=
                 go_store (Visited same_cell_net) 1 (go_store (replicate 41 False) 1 True)\<rparr>)"
proof -
  have a: "go_index (Visited same_cell_net) (Dst relay_msg) = Some (replicate 41 False)"
    by (simp add: same_cell_net_def relay_msg_def NewMessage_def go_index_def in_range_def)
  have b: "go_index (replicate 41 False) (Step relay_msg) = Some False"
    by (simp add: relay_msg_def NewMessage_def go_index_def in_range_def)
  have c: "0 < Step relay_msg"
    by (simp add: relay_msg_def NewMessage_def)
  have d: "go_index (NodeGeohash same_cell_net) (Dst relay_msg) = Some ''s''"
    by (simp add: same_cell_net_def relay_msg_def NewMessage_def go_index_def in_range_def)
  have e: "go_index (NodeGeohash same_cell_net) (Src relay_msg) = Some ''s''"
    by (simp add: same_cell_net_def relay_msg_def NewMessage_def go_index_def in_range_def)
  have f: "GetGeoBucketIndex ''s'' ''s'' (TotalBits same_cell_net) = 0"
    by (rule GetGeoBucketIndex_same)
  have g: "go_index (KaryMsgInfo same_cell_net) (Dst relay_msg)
             = Some \<lparr>RootNode = - 1, IsKary = False\<rparr>"
    by (simp add: same_cell_net_def relay_msg_def NewMessage_def go_index_def in_range_def)
  have h: "\<not> IsKary \<lparr>RootNode = - 1, IsKary = False\<rparr>"
    by simp
  have r: "Dst relay_msg = 1" "Step relay_msg = 1"
    by (simp_all add: relay_msg_def NewMessage_def)
  from C2_same_cell_relay_forwards_nothing [OF a b c d e f g h] a b c d e f g
  show ?thesis by (simp add: r)
qed

section \<open>Results about the K-bucket fill\<close>

subsection \<open>Stable deduplication\<close>

lemma dedup_loop_eq:
  "dedup_loop seen xs out = out @ first_occurrences (filter (\<lambda>x. x \<notin> seen) xs)"
proof (induction xs arbitrary: seen out)
  case Nil
  then show ?case by simp
next
  case (Cons v vs)
  show ?case
  proof (cases "v \<in> seen")
    case True
    then show ?thesis using Cons.IH [of seen out] by simp
  next
    case False
    have "filter (\<lambda>y. y \<noteq> v) (filter (\<lambda>x. x \<notin> seen) vs) = filter (\<lambda>x. x \<notin> insert v seen) vs"
      by (induction vs) auto
    then show ?thesis using False Cons.IH [of "insert v seen" "out @ [v]"] by simp
  qed
qed

lemma first_occurrences_short: "length xs \<le> 1 \<Longrightarrow> first_occurrences xs = xs"
  by (cases xs) (auto simp: Suc_le_eq)

lemma DedupIntsStable_eq: "DedupIntsStable xs = first_occurrences xs"
  by (simp add: DedupIntsStable_def dedup_loop_eq first_occurrences_short)

lemma set_first_occurrences: "set (first_occurrences xs) = set xs"
proof (induction xs rule: first_occurrences.induct)
  case 1
  then show ?case by simp
next
  case (2 x xs)
  then show ?case by auto
qed

lemma distinct_first_occurrences: "distinct (first_occurrences xs)"
proof (induction xs rule: first_occurrences.induct)
  case 1
  then show ?case by simp
next
  case (2 x xs)
  then show ?case by (simp add: set_first_occurrences)
qed

subsection \<open>The candidate sort\<close>

lemma sift_props:
  "sift x ys = (m, r) \<Longrightarrow>
     mset (m # r) = mset (x # ys) \<and> length r = length ys \<and> fst m \<le> fst x \<and>
     (\<forall>z \<in> set r. fst m \<le> fst z)"
proof (induction ys arbitrary: x m r)
  case Nil
  then show ?case by simp
next
  case (Cons y ys)
  show ?case
  proof (cases "fst x > fst y")
    case True
    obtain m' r' where s: "sift y ys = (m', r')" by (cases "sift y ys")
    with Cons.prems True have mr: "m = m'" "r = x # r'" by simp_all
    from Cons.IH [OF s] True show ?thesis unfolding mr by auto
  next
    case False
    obtain m' r' where s: "sift x ys = (m', r')" by (cases "sift x ys")
    with Cons.prems False have mr: "m = m'" "r = y # r'" by simp_all
    from Cons.IH [OF s] False show ?thesis unfolding mr by auto
  qed
qed

lemma sort_inner_fold:
  "length pre = a \<Longrightarrow> k = a + 1 + length dn \<Longrightarrow> sift x ys = (m, r) \<Longrightarrow>
   fold (\<lambda>b c. if fst (c ! a) > fst (c ! b) then swap_at c a b else c)
        [k..<k + length ys] (pre @ x # dn @ ys)
     = pre @ m # dn @ r"
proof (induction ys arbitrary: x dn k m r)
  case Nil
  then show ?case by simp
next
  case (Cons y ys)
  have range: "[k..<k + length (y # ys)] = k # [Suc k..<Suc k + length ys]"
    by (simp add: upt_rec)
  have at_a: "(pre @ x # dn @ y # ys) ! a = x"
    using Cons.prems(1) by (simp add: nth_append)
  have at_k: "(pre @ x # dn @ y # ys) ! k = y"
    using Cons.prems(1,2) by (simp add: nth_append)
  show ?case
  proof (cases "fst x > fst y")
    case True
    obtain m' r' where s: "sift y ys = (m', r')" by (cases "sift y ys")
    with Cons.prems(3) True have mr: "m = m'" "r = x # r'" by simp_all
    have sw: "swap_at (pre @ x # dn @ y # ys) a k = pre @ y # (dn @ [x]) @ ys"
      using Cons.prems(1,2) at_a at_k
      by (simp add: swap_at_def list_update_append nth_append)
    have "fold (\<lambda>b c. if fst (c ! a) > fst (c ! b) then swap_at c a b else c)
            [Suc k..<Suc k + length ys] (pre @ y # (dn @ [x]) @ ys) = pre @ m' # (dn @ [x]) @ r'"
      by (rule Cons.IH [OF Cons.prems(1) _ s]) (simp add: Cons.prems(2))
    then show ?thesis
      unfolding range mr using True at_a at_k sw by simp
  next
    case False
    obtain m' r' where s: "sift x ys = (m', r')" by (cases "sift x ys")
    with Cons.prems(3) False have mr: "m = m'" "r = y # r'" by simp_all
    have "fold (\<lambda>b c. if fst (c ! a) > fst (c ! b) then swap_at c a b else c)
            [Suc k..<Suc k + length ys] (pre @ x # (dn @ [y]) @ ys) = pre @ m' # (dn @ [y]) @ r'"
      by (rule Cons.IH [OF Cons.prems(1) _ s]) (simp add: Cons.prems(2))
    then show ?thesis
      unfolding range mr using False at_a at_k by simp
  qed
qed

lemma sort_inner_sift:
  assumes "length pre = a" and "sift x ys = (m, r)"
  shows "sort_inner a (pre @ x # ys) = pre @ m # r"
proof -
  have "[a + 1..<length (pre @ x # ys)] = [a + 1..<a + 1 + length ys]"
    using assms(1) by simp
  then show ?thesis
    unfolding sort_inner_def
    using sort_inner_fold [OF assms(1) _ assms(2), of "a + 1" "[]"] by simp
qed

lemma sort_outer_fold:
  "length pre = a \<Longrightarrow> length ys = n \<Longrightarrow>
   \<exists>S. fold sort_inner [a..<a + n - 1] (pre @ ys) = pre @ S \<and>
       sorted (map fst S) \<and> mset S = mset ys"
proof (induction n arbitrary: pre ys a)
  case 0
  then show ?case by simp
next
  case (Suc n)
  then obtain x xs where ys: "ys = x # xs" and len: "length xs = n"
    by (cases ys) auto
  show ?case
  proof (cases n)
    case 0
    with len ys show ?thesis by simp
  next
    case (Suc n')
    obtain m r where s: "sift x xs = (m, r)" by (cases "sift x xs")
    note p = sift_props [OF s]
    have range: "[a..<a + Suc n - 1] = a # [Suc a..<Suc a + n - 1]"
      using Suc by (simp add: upt_rec)
    have inner: "sort_inner a (pre @ ys) = (pre @ [m]) @ r"
      using sort_inner_sift [OF Suc.prems(1) s] ys by simp
    have "length (pre @ [m]) = Suc a" using Suc.prems(1) by simp
    moreover have "length r = n" using p len by simp
    ultimately obtain S where S: "fold sort_inner [Suc a..<Suc a + n - 1] ((pre @ [m]) @ r) = (pre @ [m]) @ S"
      "sorted (map fst S)" "mset S = mset r"
      using Suc.IH by blast
    have "\<forall>z \<in> set S. fst m \<le> fst z"
      using p S(3) by (metis mset_eq_setD)
    then have "sorted (map fst (m # S))" using S(2) by auto
    moreover have "mset (m # S) = mset ys" using p S(3) ys by simp
    moreover have "fold sort_inner [a..<a + Suc n - 1] (pre @ ys) = pre @ (m # S)"
      unfolding range using inner S(1) by simp
    ultimately show ?thesis by blast
  qed
qed

lemma sort_candidates_sorts:
  "sorted (map fst (sort_candidates cs)) \<and> mset (sort_candidates cs) = mset cs"
  using sort_outer_fold [of "[]" 0 cs "length cs"] by (auto simp: sort_candidates_def)

lemma sorts_by_distance_sort_candidates: "sorts_by_distance sort_candidates"
  by (simp add: sorts_by_distance_def sort_candidates_sorts)

lemma length_sort_candidates: "length (sort_candidates cs) = length cs"
  using sort_candidates_sorts [of cs] by (metis size_mset)

subsection \<open>The code against the specification\<close>

lemma upto_as_upt: "[0..int n - 1] = map int [0..<n]"
proof (induction n)
  case 0
  then show ?case by simp
next
  case (Suc n)
  have "[0..int (Suc n) - 1] = [0..int n - 1] @ [int n]"
    using upto_rec2 [of 0 "int n"] by simp
  then show ?case using Suc by simp
qed

lemma upto_from_one: "0 \<le> t \<Longrightarrow> [1..t] = map int [1..<nat t + 1]"
proof (induction "nat t" arbitrary: t)
  case 0
  then show ?case by simp
next
  case (Suc k)
  then have t: "t = int k + 1" by linarith
  have "[1..t] = [1..int k] @ [t]"
    using upto_rec2 [of 1 t] t by simp
  moreover have "[1..int k] = map int [1..<nat (int k) + 1]"
    using Suc(1) [of "int k"] by simp
  ultimately show ?case using t by (simp add: nat_add_distrib)
qed

lemma FirstDiffBitPos_from_range:
  "FirstDiffBitPos_from i a b = - 1 \<or> (i \<le> FirstDiffBitPos_from i a b)"
  by (induction i a b rule: FirstDiffBitPos_from.induct) auto

lemma FirstDiffBitPos_range: "FirstDiffBitPos a b = - 1 \<or> 0 \<le> FirstDiffBitPos a b"
  using FirstDiffBitPos_from_range [of 0 a b] by (simp add: FirstDiffBitPos_def)

lemma length_spec_scan: "length (fst (spec_scan P i j (kb, cs))) = length kb"
  by (simp add: spec_scan_def Let_def)

lemma scan_node_refines:
  assumes "fill_shape P kb" and "i < length (nodeGeohashBinary P)"
    and "j < length (nodeGeohashBinary P)"
  shows "\<exists>c'. scan_node P (int i) (int j) (kb, cs, c) =
           Some (fst (spec_scan P i j (kb, cs)), snd (spec_scan P i j (kb, cs)), c')"
proof -
  let ?d = "FirstDiffBitPos (nodeGeohashBinary P ! i) (nodeGeohashBinary P ! j)"
  have bins: "go_index (nodeGeohashBinary P) (int i) = Some (nodeGeohashBinary P ! i)"
    "go_index (nodeGeohashBinary P) (int j) = Some (nodeGeohashBinary P ! j)"
    using assms by (simp_all add: go_index_def in_range_def)
  have cds: "go_index (coords P) (int i) = Some (coords P ! i)"
    "go_index (coords P) (int j) = Some (coords P ! j)"
    using assms by (simp_all add: go_index_def in_range_def fill_shape_def)
  have kbi: "1 \<le> b \<Longrightarrow> b \<le> totalBits P \<Longrightarrow> go_index kb b = Some (kb ! nat b)" for b
    using assms(1) by (auto simp: go_index_def in_range_def fill_shape_def)
  consider (same) "i = j" | (eq) "i \<noteq> j" "?d = - 1" | (diff) "i \<noteq> j" "0 \<le> ?d"
    using FirstDiffBitPos_range [of "nodeGeohashBinary P ! i" "nodeGeohashBinary P ! j"] by blast
  then show ?thesis
  proof cases
    case same
    then show ?thesis by (simp add: scan_node_def spec_scan_def Let_def)
  next
    case eq
    then show ?thesis by (simp add: scan_node_def spec_scan_def Let_def bins)
  next
    case diff
    then have ne: "?d \<noteq> - 1" by simp
    show ?thesis
    proof (cases "1 \<le> totalBits P - ?d \<and> totalBits P - ?d \<le> totalBits P")
      case True
      then show ?thesis
        using diff ne kbi [of "totalBits P - ?d"]
        by (auto simp add: scan_node_def spec_scan_def Let_def bins cds go_store_def)
    next
      case False
      then show ?thesis
        using diff ne by (auto simp add: scan_node_def spec_scan_def Let_def bins)
    qed
  qed
qed

lemma fill_shape_spec_scan:
  "fill_shape P kb \<Longrightarrow> fill_shape P (fst (spec_scan P i j (kb, cs)))"
  by (simp add: fill_shape_def length_spec_scan)

lemma scan_loop_refines:
  assumes "i < length (nodeGeohashBinary P)"
  shows "fill_shape P kb \<Longrightarrow> \<forall>j \<in> set js. j < length (nodeGeohashBinary P) \<Longrightarrow>
     \<exists>c'. loop_opt (scan_node P (int i)) (map int js) (kb, cs, c) =
           Some (fst (fold (spec_scan P i) js (kb, cs)), snd (fold (spec_scan P i) js (kb, cs)), c')"
proof (induction js arbitrary: kb cs c)
  case Nil
  then show ?case by simp
next
  case (Cons j js)
  obtain kb1 cs1 where st: "spec_scan P i j (kb, cs) = (kb1, cs1)"
    by (cases "spec_scan P i j (kb, cs)")
  obtain c1 where one: "scan_node P (int i) (int j) (kb, cs, c) = Some (kb1, cs1, c1)"
    using scan_node_refines [OF Cons.prems(1) assms, of j cs c] Cons.prems(2) st by auto
  have sh: "fill_shape P kb1"
    using fill_shape_spec_scan [OF Cons.prems(1), of i j cs] st by simp
  obtain c' where "loop_opt (scan_node P (int i)) (map int js) (kb1, cs1, c1) =
           Some (fst (fold (spec_scan P i) js (kb1, cs1)), snd (fold (spec_scan P i) js (kb1, cs1)), c')"
    using Cons.IH [OF sh, of cs1 c1] Cons.prems(2) by auto
  then show ?case using one st by simp
qed

lemma length_fold_spec_scan:
  "length (fst (fold (spec_scan P i) js (kb, cs))) = length kb"
proof (induction js arbitrary: kb cs)
  case Nil
  then show ?case by simp
next
  case (Cons j js)
  obtain kb1 cs1 where st: "spec_scan P i j (kb, cs) = (kb1, cs1)"
    by (cases "spec_scan P i j (kb, cs)")
  then have "length kb1 = length kb"
    using length_spec_scan [of P i j kb cs] by simp
  then show ?case using Cons.IH [of kb1 cs1] st by simp
qed

lemma append_ids_fold:
  "k \<le> length cs \<Longrightarrow>
   fold (\<lambda>c b. b @ [snd (cs ! c)]) [0..<k] b0 = b0 @ map snd (take k cs)"
proof (induction k)
  case 0
  then show ?case by simp
next
  case (Suc k)
  then show ?case by (simp add: take_Suc_conv_app_nth)
qed

lemma fill_bucket_refines:
  assumes sh: "fill_shape P kb" and i: "i < length (nodeGeohashBinary P)"
    and B: "1 \<le> B" "int B \<le> totalBits P"
  shows "\<exists>c'. fill_bucket P (int i) (int B) (kb, c) =
           Some (spec_fill_bucket sort_candidates P i B kb, c')"
proof -
  have outer: "go_index kb (int B) = Some (kb ! B)"
    using sh B by (auto simp: go_index_def in_range_def fill_shape_def)
  show ?thesis
  proof (cases "int (length (kb ! B)) \<ge> bucketSize P")
    case True
    then show ?thesis by (simp add: fill_bucket_def spec_fill_bucket_def outer)
  next
    case False
    let ?n = "length (nodeGeohashBinary P)"
    obtain kb1 cs1 where st: "fold (spec_scan P i) [0..<?n] (kb, []) = (kb1, cs1)"
      by (cases "fold (spec_scan P i) [0..<?n] (kb, [])")
    obtain c1 where scan: "loop_opt (scan_node P (int i)) (map int [0..<?n]) (kb, [], c) = Some (kb1, cs1, c1)"
      using scan_loop_refines [OF i sh, of "[0..<?n]" "[]" c] st by auto
    have len1: "length kb1 = length kb"
      using length_fold_spec_scan [of P i "[0..<?n]" kb "[]"] st by simp
    then have outer1: "go_index kb1 (int B) = Some (kb1 ! B)"
      using sh B by (auto simp: go_index_def in_range_def fill_shape_def)
    have lim: "nat (min (bucketSize P) (int (length cs1))) \<le> length (sort_candidates cs1)"
      by (simp add: length_sort_candidates)
    show ?thesis
      using False scan st
      by (simp add: fill_bucket_def spec_fill_bucket_def outer outer1 upto_as_upt
          append_ids_fold [OF lim] go_store_def Let_def)
  qed
qed


lemma fill_shape_spec_fill_bucket:
  "fill_shape P kb \<Longrightarrow> fill_shape P (spec_fill_bucket srt P i B kb)"
proof -
  assume sh: "fill_shape P kb"
  obtain kb1 cs1 where st: "fold (spec_scan P i) [0..<length (nodeGeohashBinary P)] (kb, []) = (kb1, cs1)"
    by (cases "fold (spec_scan P i) [0..<length (nodeGeohashBinary P)] (kb, [])")
  then have "length kb1 = length kb"
    using length_fold_spec_scan [of P i "[0..<length (nodeGeohashBinary P)]" kb "[]"] by simp
  then show ?thesis
    using sh st by (simp add: spec_fill_bucket_def fill_shape_def)
qed

lemma fill_bucket_loop_refines:
  assumes i: "i < length (nodeGeohashBinary P)"
  shows "fill_shape P kb \<Longrightarrow> \<forall>B \<in> set Bs. 1 \<le> B \<and> int B \<le> totalBits P \<Longrightarrow>
     \<exists>c'. loop_opt (fill_bucket P (int i)) (map int Bs) (kb, c) =
           Some (fold (spec_fill_bucket sort_candidates P i) Bs kb, c')"
proof (induction Bs arbitrary: kb c)
  case Nil
  then show ?case by simp
next
  case (Cons B Bs)
  obtain c1 where one: "fill_bucket P (int i) (int B) (kb, c) =
           Some (spec_fill_bucket sort_candidates P i B kb, c1)"
    using fill_bucket_refines [OF Cons.prems(1) i, of B c] Cons.prems(2) by auto
  have sh: "fill_shape P (spec_fill_bucket sort_candidates P i B kb)"
    by (rule fill_shape_spec_fill_bucket [OF Cons.prems(1)])
  obtain c' where "loop_opt (fill_bucket P (int i)) (map int Bs)
        (spec_fill_bucket sort_candidates P i B kb, c1) =
           Some (fold (spec_fill_bucket sort_candidates P i) Bs
                  (spec_fill_bucket sort_candidates P i B kb), c')"
    using Cons.IH [OF sh, of c1] Cons.prems(2) by auto
  then show ?case using one by simp
qed

lemma length_fold_spec_fill_bucket:
  "fill_shape P kb \<Longrightarrow> fill_shape P (fold (spec_fill_bucket srt P i) Bs kb)"
  by (induction Bs arbitrary: kb) (simp_all add: fill_shape_spec_fill_bucket)

lemma dedup_loop_refines:
  "n \<le> length kb \<Longrightarrow>
   loop_opt dedup_bucket (map int [0..<n]) kb = Some (map first_occurrences (take n kb) @ drop n kb)"
proof (induction n)
  case 0
  then show ?case by simp
next
  case (Suc n)
  then have n: "n < length kb" by simp
  let ?mid = "map first_occurrences (take n kb) @ drop n kb"
  have split: "loop_opt body (xs @ [x]) s = (case loop_opt body xs s of None \<Rightarrow> None | Some s' \<Rightarrow> body x s')"
    for body :: "int \<Rightarrow> int list list \<Rightarrow> int list list option" and xs x s
    by (induction xs arbitrary: s) (auto split: option.splits)
  have "loop_opt dedup_bucket (map int [0..<Suc n]) kb = dedup_bucket (int n) ?mid"
    using Suc by (simp add: split)
  also have "\<dots> = Some (?mid[n := first_occurrences (?mid ! n)])"
    using n by (simp add: dedup_bucket_def go_index_def in_range_def go_store_def DedupIntsStable_eq)
  also have "?mid[n := first_occurrences (?mid ! n)] =
      map first_occurrences (take (Suc n) kb) @ drop (Suc n) kb"
    using n by (simp add: list_update_append nth_append take_Suc_conv_app_nth
        Cons_nth_drop_Suc [symmetric])
  finally show ?case .
qed

lemma fill_node_refines:
  assumes sh: "fill_shape P kb" and i: "i < length (nodeGeohashBinary P)"
  shows "\<exists>c'. fill_node P (int i) (kb, c) = Some (spec_fill_node sort_candidates P i kb, c')"
proof -
  let ?Bs = "[1..<nat (totalBits P) + 1]"
  let ?kb1 = "fold (spec_fill_bucket sort_candidates P i) ?Bs kb"
  have tb: "0 \<le> totalBits P" using sh by (simp add: fill_shape_def)
  have "\<forall>B \<in> set ?Bs. 1 \<le> B \<and> int B \<le> totalBits P"
    using tb by auto
  then obtain c1 where l1: "loop_opt (fill_bucket P (int i)) (map int ?Bs) (kb, c) = Some (?kb1, c1)"
    using fill_bucket_loop_refines [OF i sh, of ?Bs c] by blast
  have sh1: "fill_shape P ?kb1"
    by (rule length_fold_spec_fill_bucket [OF sh])
  then have len: "length ?kb1 = nat (totalBits P) + 1"
    by (simp add: fill_shape_def)
  have r0: "[0..totalBits P] = map int [0..<nat (totalBits P) + 1]"
    using upto_as_upt [of "nat (totalBits P) + 1"] tb by simp
  have l2: "loop_opt dedup_bucket [0..totalBits P] ?kb1 = Some (map first_occurrences ?kb1)"
    unfolding r0 using dedup_loop_refines [of "nat (totalBits P) + 1" ?kb1] len by simp
  show ?thesis
    using l1 l2 by (simp add: fill_node_def upto_from_one [OF tb] spec_fill_node_def)
qed


lemma loop_opt_snoc:
  "loop_opt body (xs @ [x]) s = (case loop_opt body xs s of None \<Rightarrow> None | Some s' \<Rightarrow> body x s')"
  by (induction xs arbitrary: s) (auto split: option.splits)

lemma fill_rows_refines:
  assumes tb: "0 \<le> totalBits P"
    and rows: "\<forall>row \<in> set kBuckets. length row = nat (totalBits P) + 1"
    and cds: "length (nodeGeohashBinary P) \<le> length (coords P)"
  shows "k \<le> length kBuckets \<Longrightarrow> k \<le> length (nodeGeohashBinary P) \<Longrightarrow>
     \<exists>c'. loop_opt (\<lambda>i st. case st of (kbs, connections) \<Rightarrow>
                 do {
                   row \<leftarrow> go_index kbs i;
                   (row', connections') \<leftarrow> fill_node P i (row, connections);
                   Some (go_store kbs i row', connections')
                 }) (map int [0..<k]) (kBuckets, c)
       = Some (map (\<lambda>i. spec_fill_node sort_candidates P i (kBuckets ! i)) [0..<k] @ drop k kBuckets, c')"
proof (induction k)
  case 0
  then show ?case by simp
next
  case (Suc k)
  let ?f = "\<lambda>i. spec_fill_node sort_candidates P i (kBuckets ! i)"
  let ?mid = "map ?f [0..<k] @ drop k kBuckets"
  from Suc obtain c1 where ih: "loop_opt (\<lambda>i st. case st of (kbs, connections) \<Rightarrow>
                 do {
                   row \<leftarrow> go_index kbs i;
                   (row', connections') \<leftarrow> fill_node P i (row, connections);
                   Some (go_store kbs i row', connections')
                 }) (map int [0..<k]) (kBuckets, c) = Some (?mid, c1)"
    by auto
  have k: "k < length kBuckets" "k < length (nodeGeohashBinary P)"
    using Suc.prems by simp_all
  have midk: "?mid ! k = kBuckets ! k"
    using k by (simp add: nth_append)
  have row: "go_index ?mid (int k) = Some (kBuckets ! k)"
    using k midk by (simp add: go_index_def in_range_def)
  have "fill_shape P (kBuckets ! k)"
    using rows k tb cds by (simp add: fill_shape_def)
  then obtain c2 where fn: "fill_node P (int k) (kBuckets ! k, c1) = Some (?f k, c2)"
    using fill_node_refines [OF _ k(2), of "kBuckets ! k" c1] by blast
  have upd: "?mid[k := ?f k] = map ?f [0..<Suc k] @ drop (Suc k) kBuckets"
    using k by (simp add: list_update_append Cons_nth_drop_Suc [symmetric])
  show ?case
    using ih row fn upd by (simp add: loop_opt_snoc go_store_def)
qed

text \<open>
  Claim C3 (K1..Kn fill).  On a well-shaped table (one row of \<open>totalBits + 1\<close> buckets
  per node, a coordinate for every node) \<open>FillOtherKBuckets\<close> does not panic and leaves,
  for every node \<open>i\<close>, exactly the row \<open>spec_fill_node\<close> describes: for \<open>B = 1, \<dots>,
  totalBits\<close> in turn, nothing when bucket \<open>B\<close> already holds \<open>bucketSize\<close> entries;
  otherwise every \<open>j \<noteq> i\<close> whose \<open>realBucket = totalBits - FirstDiffBitPos\<close> lies in
  \<open>[1, totalBits]\<close> and whose bucket \<open>realBucket\<close> is below capacity is appended to
  bucket \<open>realBucket\<close> and recorded as a candidate, and the first \<open>min(bucketSize,
  |cands|)\<close> candidates in ascending distance are then appended to bucket \<open>B\<close>
  unconditionally; finally every bucket is replaced by its first occurrences, whatever
  its length.  The code's candidate sort is an ascending rearrangement.
\<close>

theorem C3_FillOtherKBuckets_refines_spec:
  assumes "0 \<le> totalBits P"
    and "map length kBuckets = replicate (length (nodeGeohashBinary P)) (nat (totalBits P) + 1)"
    and "length (nodeGeohashBinary P) \<le> length (coords P)"
  shows "sorts_by_distance sort_candidates \<and>
         map_option fst (FillOtherKBuckets P kBuckets) =
           Some (map (\<lambda>i. spec_fill_node sort_candidates P i (kBuckets ! i)) [0..<length kBuckets])"
proof -
  have len: "length kBuckets = length (nodeGeohashBinary P)"
    using assms(2) by (metis length_map length_replicate)
  have rows: "\<forall>row \<in> set kBuckets. length row = nat (totalBits P) + 1"
  proof
    fix row assume "row \<in> set kBuckets"
    then have "length row \<in> set (map length kBuckets)" by simp
    then show "length row = nat (totalBits P) + 1"
      unfolding assms(2) by simp
  qed
  obtain c' where "loop_opt (\<lambda>i st. case st of (kbs, connections) \<Rightarrow>
                 do {
                   row \<leftarrow> go_index kbs i;
                   (row', connections') \<leftarrow> fill_node P i (row, connections);
                   Some (go_store kbs i row', connections')
                 }) (map int [0..<length kBuckets]) (kBuckets, 0)
       = Some (map (\<lambda>i. spec_fill_node sort_candidates P i (kBuckets ! i)) [0..<length kBuckets]
                @ drop (length kBuckets) kBuckets, c')"
    using fill_rows_refines [OF assms(1) rows assms(3), of "length kBuckets" 0] len by auto
  then show ?thesis
    using len by (simp add: FillOtherKBuckets_def upto_as_upt sorts_by_distance_sort_candidates)
qed

theorem C3_FillOtherKBuckets_witness:
  "0 \<le> totalBits quirk_params \<and>
   map length (replicate 3 (replicate 6 ([] :: int list))) =
     replicate (length (nodeGeohashBinary quirk_params)) (nat (totalBits quirk_params) + 1) \<and>
   length (nodeGeohashBinary quirk_params) \<le> length (coords quirk_params) \<and>
   map_option fst (FillOtherKBuckets quirk_params (replicate 3 (replicate 6 []))) =
     Some [[[], [1, 2], [2], [], [], [2]],
           [[], [0, 2], [2], [], [], [2]],
           [[], [0, 1], [], [], [], [0, 1]]]"
proof -
  have a: "0 \<le> totalBits quirk_params"
    by (simp add: quirk_params_def)
  have b: "map length (replicate 3 (replicate 6 ([] :: int list))) =
     replicate (length (nodeGeohashBinary quirk_params)) (nat (totalBits quirk_params) + 1)"
    by code_simp
  have c: "length (nodeGeohashBinary quirk_params) \<le> length (coords quirk_params)"
    by (simp add: quirk_params_def)
  have e: "map (\<lambda>i. spec_fill_node sort_candidates quirk_params i
                  (replicate 3 (replicate 6 []) ! i))
             [0..<length (replicate 3 (replicate 6 ([] :: int list)))] =
           [[[], [1, 2], [2], [], [], [2]],
            [[], [0, 2], [2], [], [], [2]],
            [[], [0, 1], [], [], [], [0, 1]]]"
    by code_simp
  from C3_FillOtherKBuckets_refines_spec [OF a b c] a b c e show ?thesis
    by simp
qed

section \<open>Results about the simulator\<close>

lemma heap_Push_empty: "heap_Push [] m = [m]"
  by (simp add: heap_Push_def heap_up.simps [of "[m]" 0])

lemma heap_Pop_single: "heap_Pop [m] = (m, [])"
  by (simp add: heap_Pop_def swap_at_def heap_down.simps [of _ 0 0])

text \<open>
  Claim C1 (first hop of Mercator).  The claim asks for coefficient 1 on the haversine
  delay of the messages a Mercator root emits (\<open>Step = 0\<close>).  \<open>runMercator\<close> runs the
  common \<open>Simulation\<close>, whose forwarding loop calls \<open>CalculatePropagationDelay\<close> for
  every hop.  On \<open>two_net\<close> the root's message to node 1 is sent at 250 and arrives at
  \<open>250 + 3 * 40 + transmission\<close>, not at \<open>250 + 1 * 40 + transmission\<close>.
\<close>

theorem C1_first_hop_keeps_coefficient_3:
  "map_option msgQueue
     (sim_step MercatorAlgorithm two_setup (init_state two_setup [[], []] (SetRoot two_net 0) 0)) =
     Some [NewMessage 0 0 1 1 250 (250 + 3 * 40 + CalculateTransmissionDelay 300 33000000)] \<and>
   Distance (haversine two_setup) (simCoords two_setup ! 0) (simCoords two_setup ! 1) = 40 \<and>
   CalculateProcessingDelay (normalDraw two_setup 0) = 250 \<and>
   250 + 3 * 40 + CalculateTransmissionDelay 300 33000000
     \<noteq> 250 + 1 * 40 + CalculateTransmissionDelay 300 33000000"
  by code_simp

lemma pct_loop_single:
  "loop_opt (add_percentile [0]) pct_values (replicate 21 0, 0) = Some (replicate 21 0, 19)"
  by code_simp

lemma finish_latency_zero: "finish_latency 1 0 = inf_sentinel"
  by (simp add: finish_latency_def go_trunc_def inf_sentinel_def)

lemma divide_counted_first:
  "divide_counted (replicate 40 0) ((replicate 40 0)[0 := 1]) = replicate 40 0"
  by code_simp

lemma first_slot: "(replicate 40 (0 :: rat))[0 := 1] = 1 # replicate 39 0"
  by code_simp

lemma single_node_mark:
  assumes "simCoords S = [c]" and "malFlags S = [False]" and "leaveFlags S = [False]"
    and "clusterIDs S \<noteq> Some []"
    and "recvFlag st = [True]" and "recvTime st = [0]" and "depth st = [0]"
  shows "\<exists>res t. mark_uncovered S st (NewTestResult (Suc 0)) = Some (st, res, t) \<and>
           recvCount t = 1 \<and> avgLatency t = 0 \<and> AvgBandwidth res = 0 \<and>
           DepthCDF res = replicate 40 0 \<and> AvgDist res = replicate 40 0 \<and>
           Latency res = replicate 21 0"
proof (cases "clusterIDs S")
  case None
  then show ?thesis
    using assms
    by (simp add: mark_uncovered_def mark_node_def go_index_def in_range_def NewTestResult_def
        MaxDepth_def)
next
  case (Some ids)
  then have "ids \<noteq> []" using assms(4) by simp
  then have "go_index ids 0 = Some (ids ! 0)"
    by (simp add: go_index_def in_range_def)
  then show ?thesis
    using assms Some
    by (auto simp add: mark_uncovered_def mark_node_def go_index_def in_range_def
        NewTestResult_def MaxDepth_def Let_def)
qed

lemma single_node_gather:
  assumes "recvCount t = 1" and "avgLatency t = 0" and "AvgBandwidth res = 0"
    and "DepthCDF res = replicate 40 0" and "AvgDist res = replicate 40 0"
    and "Latency res = replicate 21 0"
    and "recvList st = [0]" and "recvTime st = [0]" and "recvDist st = [0]" and "depth st = [0]"
    and "dupMsg st = 0"
  shows "\<exists>r. gather_stats S (st, res, t) = Some (r, successChildren st, algoState st, draws st) \<and>
           AvgBandwidth r = 1 \<and> AvgLatency r = 0 \<and> Latency r = replicate 21 0 \<and>
           DepthCDF r = (replicate 40 0)[0 := 1]"
proof -
  have hist: "depth_histogram st r
      = Some ((replicate 40 0)[0 := 1], replicate 40 0, (replicate 40 0)[0 := 1])"
    if "DepthCDF r = replicate 40 0" "AvgDist r = replicate 40 0" for r
    using that assms(7-10)
    by (simp add: depth_histogram_def count_depth_def go_index_def in_range_def MaxDepth_def
        bump_at_def go_store_def)
  have tms: "recv_times st = Some [0]"
    using assms(7,8) by (simp add: recv_times_def go_index_def in_range_def)
  show ?thesis
    using assms
    by (cases "clusterIDs S")
       (simp_all add: gather_stats_def hist tms pct_loop_single)
qed

text \<open>
  Claim C4, amended (one node).  With one node, neither malicious nor absent, root 0, one
  repetition, and an algorithm that answers the root's own message with the empty relay
  list, \<open>SingleRootSimulation\<close> returns a result with bandwidth 1, average latency 0
  and \<open>DepthCDF = [1, 0, \<dots>, 0]\<close>; every one of the 21 percentile slots holds the
  sentinel \<open>10\<^sup>8\<close>, since the closing pass replaces a slot below 0.1 by it.
\<close>

theorem C4_single_node_run:
  assumes "simCoords S = [c]" and "malFlags S = [False]" and "leaveFlags S = [False]"
    and "simRoot S = 0" and "clusterIDs S \<noteq> Some []"
    and "algoRespond A (algoSetRoot A a0 0) (NewMessage 0 0 0 0 0 0) = Some ([], a1)"
  shows "\<exists>res. SingleRootSimulation A S 1 a0 = Some res \<and>
           AvgBandwidth res = 1 \<and> AvgLatency res = 0 \<and>
           Latency res = replicate 21 inf_sentinel \<and>
           DepthCDF res = 1 # replicate 39 0"
proof -
  let ?m = "NewMessage 0 0 0 0 0 0"
  let ?st0 = "init_state S [[]] (algoSetRoot A a0 0) 0"
  let ?st1 = "\<lparr>msgQueue = [], recvFlag = [True], recvTime = [0], recvDist = [0],
               recvParent = [0], depth = [0], recvList = [0], dupMsg = 0,
               successChildren = [[]], algoState = a1, draws = Suc 0\<rparr>"
  have st0: "?st0 = \<lparr>msgQueue = [?m], recvFlag = [False], recvTime = [0], recvDist = [0],
               recvParent = [- 1], depth = [0], recvList = [], dupMsg = 0,
               successChildren = [[]], algoState = algoSetRoot A a0 0, draws = 0\<rparr>"
    using assms by (simp add: init_state_def heap_Push_empty)
  have step: "sim_step A S ?st0 = Some ?st1"
    unfolding st0 using assms
    by (simp add: sim_step_def heap_Pop_single go_index_def in_range_def go_store_def
        NewMessage_def Let_def)
  have loop1: "sim_loop A S ?st1 = Some ?st1"
    by (subst sim_loop.simps) simp
  have loop: "sim_loop A S ?st0 = Some ?st1"
    using step unfolding st0 by (subst sim_loop.simps) (simp add: loop1)
  obtain res t where mark: "mark_uncovered S ?st1 (NewTestResult (Suc 0)) = Some (?st1, res, t)"
    and f: "recvCount t = 1" "avgLatency t = 0" "AvgBandwidth res = 0"
      "DepthCDF res = replicate 40 0" "AvgDist res = replicate 40 0" "Latency res = replicate 21 0"
    using single_node_mark [OF assms(1,2,3,5), of ?st1] by auto
  obtain r where gather: "gather_stats S (?st1, res, t) = Some (r, [[]], a1, Suc 0)"
    and g: "AvgBandwidth r = 1" "AvgLatency r = 0" "Latency r = replicate 21 0"
      "DepthCDF r = (replicate 40 0)[0 := 1]"
    using single_node_gather [OF f, of ?st1 S] by auto
  have rb: "rept_body A S (NewTestResult (Suc 0), [[]], algoSetRoot A a0 0, 0) =
      Some (r, [[]], a1, Suc 0)"
    by (simp add: rept_body_def loop mark gather)
  show ?thesis
    using assms(1,4) rb g
    by (simp add: SingleRootSimulation_def finish_latency_zero first_slot)
qed

text \<open>
  Claim C4 as stated asks for latency 0 in every percentile slot.  On the one-node
  Mercator network every slot is \<open>10\<^sup>8\<close>.
\<close>

theorem C4_single_node_counterexample:
  "length (simCoords single_setup) = 1 \<and> simRoot single_setup = 0 \<and>
   malFlags single_setup = [False] \<and> leaveFlags single_setup = [False] \<and>
   map_option AvgBandwidth (SingleRootSimulation MercatorAlgorithm single_setup 1 single_net) = Some 1 \<and>
   map_option DepthCDF (SingleRootSimulation MercatorAlgorithm single_setup 1 single_net)
     = Some (1 # replicate 39 0) \<and>
   map_option Latency (SingleRootSimulation MercatorAlgorithm single_setup 1 single_net)
     = Some (replicate 21 100000000)"
  by code_simp

theorem C4_single_node_witness:
  "simCoords single_setup = [\<lparr>Lat = 0, Lon = 0\<rparr>] \<and> malFlags single_setup = [False] \<and>
   leaveFlags single_setup = [False] \<and> simRoot single_setup = 0 \<and>
   clusterIDs single_setup \<noteq> Some [] \<and>
   algoRespond MercatorAlgorithm (algoSetRoot MercatorAlgorithm single_net 0) (NewMessage 0 0 0 0 0 0)
     = Some ([], (SetRoot single_net 0)\<lparr>Visited := [(replicate 41 False)[0 := True]]\<rparr>) \<and>
   (\<exists>res. SingleRootSimulation MercatorAlgorithm single_setup 1 single_net = Some res \<and>
           AvgBandwidth res = 1 \<and> AvgLatency res = 0 \<and>
           Latency res = replicate 21 inf_sentinel \<and>
           DepthCDF res = 1 # replicate 39 0)"
proof -
  have a: "simCoords single_setup = [\<lparr>Lat = 0, Lon = 0\<rparr>]" "malFlags single_setup = [False]"
    "leaveFlags single_setup = [False]" "simRoot single_setup = 0"
    "clusterIDs single_setup \<noteq> Some []"
    by (simp_all add: single_setup_def)
  have sr: "SetRoot single_net 0 = single_net"
    by (simp add: single_net_def SetRoot_def ResetVisited_def clear_visited_eq clear_kary_eq)
  have ow: "outer_walk (replicate 11 []) 0 [1..10] [] = Some []"
    by code_simp
  have b: "algoRespond MercatorAlgorithm (algoSetRoot MercatorAlgorithm single_net 0)
             (NewMessage 0 0 0 0 0 0)
     = Some ([], (SetRoot single_net 0)\<lparr>Visited := [(replicate 41 False)[0 := True]]\<rparr>)"
    unfolding MercatorAlgorithm_def
    by (simp add: sr) (simp add: ow single_net_def Respond_def NewMessage_def go_index_def in_range_def
        go_store_def k0_forward_def not_src_def outer_forward_def Let_def)
  from C4_single_node_run [OF a b] a b show ?thesis by simp
qed

subsection \<open>What the event loop maintains\<close>

lemma sim_inv_init: "sim_inv (length (simCoords S)) (init_state S sc a k)"
  by (simp add: sim_inv_def init_state_def Let_def)

lemma sim_step_first:
  assumes step: "sim_step A S st = Some st'" and pop: "heap_Pop (msgQueue st) = (msg, q)"
    and fl: "go_index (recvFlag st) (Dst msg) = Some False"
  shows "recvFlag st' = go_store (recvFlag st) (Dst msg) True \<and>
         recvList st' = recvList st @ [Dst msg] \<and>
         length (recvTime st') = length (recvTime st) \<and>
         length (recvDist st') = length (recvDist st) \<and>
         length (depth st') = length (depth st)"
  using assms
  by (auto simp: sim_step_def Let_def go_store_def
      split: Option.bind_splits if_splits prod.splits)

lemma sim_step_dup:
  assumes step: "sim_step A S st = Some st'" and pop: "heap_Pop (msgQueue st) = (msg, q)"
    and fl: "go_index (recvFlag st) (Dst msg) = Some True"
  shows "st' = st\<lparr>msgQueue := q, dupMsg := dupMsg st + 1\<rparr>"
  using assms by (simp add: sim_step_def Let_def)

lemma sim_step_inv:
  assumes inv: "sim_inv n st" and step: "sim_step A S st = Some st'"
  shows "sim_inv n st' \<and> recvList st' \<noteq> []"
proof -
  obtain msg q where pop: "heap_Pop (msgQueue st) = (msg, q)"
    by (cases "heap_Pop (msgQueue st)")
  from step pop obtain flag where fl: "go_index (recvFlag st) (Dst msg) = Some flag"
    by (auto simp: sim_step_def Let_def split: Option.bind_splits)
  then have u: "0 \<le> Dst msg" "nat (Dst msg) < n" "recvFlag st ! nat (Dst msg) = flag"
    using inv by (auto simp: go_index_def in_range_def sim_inv_def split: if_splits)
  show ?thesis
  proof (cases flag)
    case True
    then have "st' = st\<lparr>msgQueue := q, dupMsg := dupMsg st + 1\<rparr>"
      using sim_step_dup [OF step pop] fl by simp
    moreover have "recvList st \<noteq> []"
      using inv u True by (auto simp: sim_inv_def)
    ultimately show ?thesis using inv by (simp add: sim_inv_def)
  next
    case False
    from False fl have fl': "go_index (recvFlag st) (Dst msg) = Some False" by simp
    note f = sim_step_first [OF step pop fl']
    have flags: "go_store (recvFlag st) (Dst msg) True ! i"
      if "recvFlag st ! i" "i < n" for i
      using that inv by (cases "i = nat (Dst msg)") (auto simp: go_store_def sim_inv_def)
    have here: "go_store (recvFlag st) (Dst msg) True ! nat (Dst msg)"
      using u inv by (simp add: go_store_def sim_inv_def)
    have "\<forall>v \<in> set (recvList st'). 0 \<le> v \<and> v < int n \<and> recvFlag st' ! nat v"
    proof
      fix v assume "v \<in> set (recvList st')"
      then consider "v \<in> set (recvList st)" | "v = Dst msg" using f by auto
      then show "0 \<le> v \<and> v < int n \<and> recvFlag st' ! nat v"
      proof cases
        case 1
        then have "0 \<le> v" "v < int n" "recvFlag st ! nat v"
          using inv by (auto simp: sim_inv_def)
        then show ?thesis using flags [of "nat v"] f by simp
      next
        case 2
        then show ?thesis using u here f by simp
      qed
    qed
    then show ?thesis
      using f inv by (simp add: sim_inv_def go_store_def)
  qed
qed

lemma sim_loop_inv:
  "sim_loop A S st = Some st' \<Longrightarrow> sim_inv n st \<Longrightarrow> msgQueue st \<noteq> [] \<or> recvList st \<noteq> [] \<Longrightarrow>
   sim_inv n st' \<and> recvList st' \<noteq> [] \<and> msgQueue st' = []"
proof (induction A S st rule: sim_loop.induct)
  case (1 A S st)
  show ?case
  proof (cases "msgQueue st = []")
    case True
    then have "st' = st" using "1.prems"(1) by (subst (asm) sim_loop.simps) simp
    then show ?thesis using True "1.prems" by simp
  next
    case False
    then obtain st1 where s1: "sim_step A S st = Some st1" and l1: "sim_loop A S st1 = Some st'"
      using "1.prems"(1) by (subst (asm) sim_loop.simps) (auto split: option.splits)
    from sim_step_inv [OF "1.prems"(2) s1] have "sim_inv n st1" "recvList st1 \<noteq> []" by simp_all
    then show ?thesis using "1.IH" [OF False s1 l1] by simp
  qed
qed

lemma sim_loop_from_init:
  assumes "sim_loop A S (init_state S sc a k) = Some st"
  shows "sim_inv (length (simCoords S)) st \<and> recvList st \<noteq> [] \<and> msgQueue st = []"
proof -
  have "msgQueue (init_state S sc a k) \<noteq> []"
    by (simp add: init_state_def Let_def heap_Push_empty)
  then show ?thesis
    using sim_loop_inv [OF assms sim_inv_init] by simp
qed

subsection \<open>The marking loop\<close>

lemma mark_node_step:
  assumes "flags_shape S n" and "i < n"
    and "length (recvFlag st) = n" and "length (recvTime st) = n" and "length (depth st) = n"
  shows "\<exists>res' t'. mark_node S (int i) (st, res, t) = Some (mark_state S i st, res', t') \<and>
           main_fields res' = main_fields res"
proof -
  have idx: "go_index (recvFlag st) (int i) = Some (recvFlag st ! i)"
    "go_index (malFlags S) (int i) = Some (malFlags S ! i)"
    "go_index (leaveFlags S) (int i) = Some (leaveFlags S ! i)"
    "go_index (recvTime st) (int i) = Some (recvTime st ! i)"
    "go_index (depth st) (int i) = Some (depth st ! i)"
    using assms by (simp_all add: go_index_def in_range_def flags_shape_def)
  show ?thesis
  proof (cases "uncovered S st i")
    case True
    then show ?thesis
      by (simp add: mark_node_def idx mark_state_def uncovered_def go_store_def)
  next
    case False
    show ?thesis
    proof (cases "clusterIDs S")
      case None
      with False show ?thesis
        by (auto simp add: mark_node_def idx mark_state_def uncovered_def main_fields_def Let_def)
    next
      case (Some ids)
      then have "go_index ids (int i) = Some (ids ! i)"
        using assms by (simp add: go_index_def in_range_def flags_shape_def)
      with False Some show ?thesis
        by (auto simp add: mark_node_def idx mark_state_def uncovered_def main_fields_def Let_def)
    qed
  qed
qed

lemma mark_state_shape:
  "recvFlag (mark_state S i st) = recvFlag st \<and>
   length (recvTime (mark_state S i st)) = length (recvTime st) \<and>
   length (depth (mark_state S i st)) = length (depth st) \<and>
   recvDist (mark_state S i st) = recvDist st \<and>
   dupMsg (mark_state S i st) = dupMsg st \<and>
   successChildren (mark_state S i st) = successChildren st \<and>
   algoState (mark_state S i st) = algoState st \<and>
   draws (mark_state S i st) = draws st"
  by (simp add: mark_state_def)

lemma fold_mark_shape:
  "recvFlag (fold (mark_state S) js st) = recvFlag st \<and>
   length (recvTime (fold (mark_state S) js st)) = length (recvTime st) \<and>
   length (depth (fold (mark_state S) js st)) = length (depth st) \<and>
   recvDist (fold (mark_state S) js st) = recvDist st \<and>
   dupMsg (fold (mark_state S) js st) = dupMsg st \<and>
   successChildren (fold (mark_state S) js st) = successChildren st \<and>
   algoState (fold (mark_state S) js st) = algoState st \<and>
   draws (fold (mark_state S) js st) = draws st"
proof (induction js arbitrary: st)
  case Nil
  then show ?case by simp
next
  case (Cons j js)
  show ?case
    using Cons [of "mark_state S j st"] mark_state_shape [of S j st] by simp
qed

lemma mark_loop_refines:
  assumes "flags_shape S n"
  shows "\<forall>i \<in> set js. i < n \<Longrightarrow>
     length (recvFlag st) = n \<Longrightarrow> length (recvTime st) = n \<Longrightarrow> length (depth st) = n \<Longrightarrow>
     \<exists>res' t'. loop_opt (mark_node S) (map int js) (st, res, t)
                 = Some (fold (mark_state S) js st, res', t') \<and>
               main_fields res' = main_fields res"
proof (induction js arbitrary: st res t)
  case Nil
  then show ?case by simp
next
  case (Cons j js)
  obtain res1 t1 where one: "mark_node S (int j) (st, res, t) = Some (mark_state S j st, res1, t1)"
    and m1: "main_fields res1 = main_fields res"
    using mark_node_step [OF assms _ Cons.prems(2,3,4), of j res t] Cons.prems(1) by auto
  have sh: "length (recvFlag (mark_state S j st)) = n"
    "length (recvTime (mark_state S j st)) = n" "length (depth (mark_state S j st)) = n"
    using mark_state_shape [of S j st] Cons.prems by simp_all
  obtain res' t' where "loop_opt (mark_node S) (map int js) (mark_state S j st, res1, t1)
        = Some (fold (mark_state S) js (mark_state S j st), res', t')"
    and "main_fields res' = main_fields res1"
    using Cons.IH [OF _ sh, of res1 t1] Cons.prems(1) by auto
  then show ?case using one m1 by simp
qed

lemma uncovered_fold:
  "uncovered S (fold (mark_state S) js st) i = uncovered S st i"
  using fold_mark_shape [of S js st] by (simp add: uncovered_def)

lemma fold_mark_upt:
  assumes "length (recvTime st) = n" and "length (depth st) = n"
  shows "k \<le> n \<Longrightarrow>
     recvList (fold (mark_state S) [0..<k] st)
       = recvList st @ map int (filter (uncovered S st) [0..<k]) \<and>
     (\<forall>i < n. recvTime (fold (mark_state S) [0..<k] st) ! i
               = (if i < k \<and> uncovered S st i then inf_sentinel else recvTime st ! i)) \<and>
     (\<forall>i < n. depth (fold (mark_state S) [0..<k] st) ! i
               = (if i < k \<and> uncovered S st i then MaxDepth - 1 else depth st ! i))"
proof (induction k)
  case 0
  then show ?case by simp
next
  case (Suc k)
  let ?s = "fold (mark_state S) [0..<k] st"
  have ih: "recvList ?s = recvList st @ map int (filter (uncovered S st) [0..<k])"
    "\<forall>i < n. recvTime ?s ! i = (if i < k \<and> uncovered S st i then inf_sentinel else recvTime st ! i)"
    "\<forall>i < n. depth ?s ! i = (if i < k \<and> uncovered S st i then MaxDepth - 1 else depth st ! i)"
    using Suc by simp_all
  have len: "length (recvTime ?s) = n" "length (depth ?s) = n"
    using fold_mark_shape [of S "[0..<k]" st] assms by simp_all
  have unc: "uncovered S ?s k = uncovered S st k"
    by (rule uncovered_fold)
  have step: "fold (mark_state S) [0..<Suc k] st = mark_state S k ?s"
    by simp
  show ?case
  proof (cases "uncovered S st k")
    case True
    then show ?thesis
      unfolding step using ih len unc Suc.prems
      by (auto simp: mark_state_def nth_list_update less_Suc_eq)
  next
    case False
    then show ?thesis
      unfolding step using ih len unc Suc.prems
      by (auto simp: mark_state_def less_Suc_eq)
  qed
qed

subsection \<open>The statistics loops\<close>

lemma count_depth_loop:
  assumes "length (depth st) = n" and "length (recvDist st) = n"
  shows "\<forall>u \<in> set us. 0 \<le> u \<and> u < int n \<Longrightarrow>
     length cdf = 40 \<Longrightarrow> length avgd = 40 \<Longrightarrow> length cnt = 40 \<Longrightarrow>
     \<exists>cdf' avgd' cnt'. loop_opt (count_depth st) us (cdf, avgd, cnt) = Some (cdf', avgd', cnt') \<and>
        length cdf' = 40 \<and> length avgd' = 40 \<and> length cnt' = 40 \<and>
        (\<forall>d < 40. cdf' ! d = cdf ! d + of_nat (length (filter (\<lambda>u. depth st ! nat u = int d) us)))"
proof (induction us arbitrary: cdf avgd cnt)
  case Nil
  then show ?case by simp
next
  case (Cons u us)
  have u: "0 \<le> u" "nat u < n" using Cons.prems(1) by auto
  have idx: "go_index (depth st) u = Some (depth st ! nat u)"
    "go_index (recvDist st) u = Some (recvDist st ! nat u)"
    using u assms by (simp_all add: go_index_def in_range_def)
  let ?d = "depth st ! nat u"
  show ?case
  proof (cases "0 \<le> ?d \<and> ?d < MaxDepth")
    case True
    let ?cdf1 = "bump_at cdf ?d 1"
    let ?avgd1 = "bump_at avgd ?d (recvDist st ! nat u)"
    let ?cnt1 = "go_store cnt ?d (cnt ! nat ?d + 1)"
    have one: "count_depth st u (cdf, avgd, cnt) = Some (?cdf1, ?avgd1, ?cnt1)"
      using True by (simp add: count_depth_def idx)
    have dn: "nat ?d < 40" using True by (auto simp: MaxDepth_def nat_less_iff)
    have len1: "length ?cdf1 = 40" "length ?avgd1 = 40" "length ?cnt1 = 40"
      using Cons.prems by (simp_all add: bump_at_def go_store_def)
    obtain cdf' avgd' cnt' where rest:
      "loop_opt (count_depth st) us (?cdf1, ?avgd1, ?cnt1) = Some (cdf', avgd', cnt')"
      "length cdf' = 40" "length avgd' = 40" "length cnt' = 40"
      "\<forall>d < 40. cdf' ! d = ?cdf1 ! d + of_nat (length (filter (\<lambda>u. depth st ! nat u = int d) us))"
      using Cons.IH [OF _ len1] Cons.prems(1) by auto
    have "cdf' ! d = cdf ! d + of_nat (length (filter (\<lambda>u. depth st ! nat u = int d) (u # us)))"
      if "d < 40" for d
    proof (cases "?d = int d")
      case True
      then have "nat ?d = d" by simp
      then have "?cdf1 ! d = cdf ! d + 1"
        using that Cons.prems(2) by (simp add: bump_at_def go_store_def)
      then show ?thesis using rest(5) that True by simp
    next
      case False
      then have "nat ?d \<noteq> d" using \<open>0 \<le> ?d \<and> ?d < MaxDepth\<close> by auto
      then have "?cdf1 ! d = cdf ! d"
        by (simp add: bump_at_def go_store_def)
      then show ?thesis using rest(5) that False by simp
    qed
    then show ?thesis using one rest by simp
  next
    case False
    then have one: "count_depth st u (cdf, avgd, cnt) = Some (cdf, avgd, cnt)"
      by (auto simp add: count_depth_def idx)
    obtain cdf' avgd' cnt' where rest:
      "loop_opt (count_depth st) us (cdf, avgd, cnt) = Some (cdf', avgd', cnt')"
      "length cdf' = 40" "length avgd' = 40" "length cnt' = 40"
      "\<forall>d < 40. cdf' ! d = cdf ! d + of_nat (length (filter (\<lambda>u. depth st ! nat u = int d) us))"
      using Cons.IH [OF _ Cons.prems(2,3,4)] Cons.prems(1) by auto
    have "?d \<noteq> int d" if "d < 40" for d
      using False that by (auto simp: MaxDepth_def)
    then show ?thesis using one rest by simp
  qed
qed

lemma recv_times_loop:
  assumes "length (recvTime st) = n"
  shows "\<forall>u \<in> set us. 0 \<le> u \<and> u < int n \<Longrightarrow>
     loop_opt (\<lambda>u ts. do { t \<leftarrow> go_index (recvTime st) u; Some (ts @ [t]) }) us acc
       = Some (acc @ map (\<lambda>u. recvTime st ! nat u) us)"
proof (induction us arbitrary: acc)
  case Nil
  then show ?case by simp
next
  case (Cons u us)
  then have "go_index (recvTime st) u = Some (recvTime st ! nat u)"
    using assms by (simp add: go_index_def in_range_def)
  then show ?case using Cons by simp
qed

lemma pct_values_nonneg: "list_all (\<lambda>p. 0 \<le> p) pct_values"
  by code_simp

lemma length_pct_values: "length pct_values = 19"
  by code_simp

lemma add_percentile_ok:
  assumes "tms \<noteq> []" and "0 \<le> p" and "0 \<le> cnt" and "cnt < int (length lat)"
  shows "\<exists>lat'. add_percentile tms p (lat, cnt) = Some (lat', cnt + 1) \<and> length lat' = length lat"
proof -
  define m where "m = int (length tms)"
  define i0 where "i0 = go_trunc (of_int m * p)"
  define i where "i = (if i0 \<ge> m then m - 1 else i0)"
  have "0 \<le> of_int m * p" using assms(2) by (simp add: m_def)
  then have "0 \<le> i0" by (simp add: go_trunc_def i0_def)
  moreover have "0 < m" using assms(1) by (simp add: m_def)
  ultimately have "0 \<le> i" "i < m" by (simp_all add: i_def)
  then have t: "go_index tms i = Some (tms ! nat i)"
    by (simp add: go_index_def in_range_def m_def)
  have l: "go_index lat cnt = Some (lat ! nat cnt)"
    using assms(3,4) by (simp add: go_index_def in_range_def)
  have "add_percentile tms p (lat, cnt) =
      do { t \<leftarrow> go_index tms i; l \<leftarrow> go_index lat cnt; Some (go_store lat cnt (l + t), cnt + 1) }"
    by (simp add: add_percentile_def Let_def i_def i0_def m_def)
  then show ?thesis
    by (simp add: t l go_store_def)
qed

lemma percentile_loop_ok:
  assumes "tms \<noteq> []"
  shows "list_all (\<lambda>p. 0 \<le> p) ps \<Longrightarrow> 0 \<le> cnt \<Longrightarrow> cnt + int (length ps) \<le> int (length lat) \<Longrightarrow>
     \<exists>lat'. loop_opt (add_percentile tms) ps (lat, cnt) = Some (lat', cnt + int (length ps))"
proof (induction ps arbitrary: lat cnt)
  case Nil
  then show ?case by simp
next
  case (Cons p ps)
  obtain lat1 where one: "add_percentile tms p (lat, cnt) = Some (lat1, cnt + 1)"
    and len: "length lat1 = length lat"
    using add_percentile_ok [OF assms, of p cnt lat] Cons.prems by auto
  obtain lat' where "loop_opt (add_percentile tms) ps (lat1, cnt + 1)
      = Some (lat', cnt + 1 + int (length ps))"
    using Cons.IH [of "cnt + 1" lat1] Cons.prems len by auto
  then show ?case using one by (simp add: add.assoc add.commute)
qed

lemma gather_stats_ok:
  assumes "length (depth st1) = n" and "length (recvDist st1) = n" and "length (recvTime st1) = n"
    and "\<forall>u \<in> set (recvList st1). 0 \<le> u \<and> u < int n" and "recvList st1 \<noteq> []"
    and "length (DepthCDF res1) = 40" and "length (AvgDist res1) = 40"
    and "length (Latency res1) = 21"
  shows "\<exists>r. gather_stats S (st1, res1, t)
               = Some (r, successChildren st1, algoState st1, draws st1) \<and>
           AvgBandwidth r = AvgBandwidth res1 +
              of_int (dupMsg st1 + int (length (recvList st1))) / of_int (int (length (recvList st1))) \<and>
           (\<forall>d < 40. DepthCDF r ! d =
              (DepthCDF res1 ! d +
                 of_nat (length (filter (\<lambda>u. depth st1 ! nat u = int d) (recvList st1))))
              / of_int (int (length (recvList st1))))"
proof -
  define m where "m = int (length (recvList st1))"
  define res2 where "res2 =
            (case clusterIDs S of
               None \<Rightarrow> res1
             | Some ids \<Rightarrow>
                 res1\<lparr>ClusterAvgDepth := divide_counted (ClusterAvgDepth res1) (clusterRecvCount t),
                       ClusterAvgLatency := divide_counted (ClusterAvgLatency res1) (clusterRecvCount t)\<rparr>)"
  define res3 where "res3 = res2\<lparr>AvgBandwidth := AvgBandwidth res2 + of_int (dupMsg st1 + m) / of_int m\<rparr>"
  have r2: "AvgBandwidth res2 = AvgBandwidth res1" "DepthCDF res2 = DepthCDF res1"
    "AvgDist res2 = AvgDist res1" "Latency res2 = Latency res1"
    by (simp_all add: res2_def split: option.splits)
  have r3: "AvgBandwidth res3 = AvgBandwidth res1 + of_int (dupMsg st1 + m) / of_int m"
    "DepthCDF res3 = DepthCDF res1" "AvgDist res3 = AvgDist res1" "Latency res3 = Latency res1"
    by (simp_all add: res3_def r2)
  obtain cdf avgd cnt where hist: "depth_histogram st1 res3 = Some (cdf, avgd, cnt)"
    and hl: "length cdf = 40"
    and hc: "\<forall>d < 40. cdf ! d = DepthCDF res1 ! d +
        of_nat (length (filter (\<lambda>u. depth st1 ! nat u = int d) (recvList st1)))"
    using count_depth_loop [OF assms(1,2,4), of "DepthCDF res3" "AvgDist res3"
        "replicate (nat MaxDepth) 0"] assms(6,7)
    by (auto simp: depth_histogram_def r3 MaxDepth_def)
  have tms: "recv_times st1 = Some (map (\<lambda>u. recvTime st1 ! nat u) (recvList st1))"
    using recv_times_loop [OF assms(3,4), of "[]"] by (simp add: recv_times_def)
  let ?tms = "map (\<lambda>u. recvTime st1 ! nat u) (recvList st1)"
  have "sort ?tms \<noteq> []"
    using assms(5) by (metis length_sort length_map length_0_conv)
  then obtain lat where pl: "loop_opt (add_percentile (sort ?tms)) pct_values (Latency res1, 0)
      = Some (lat, 19)"
    using percentile_loop_ok [of "sort ?tms" pct_values 0 "Latency res1"]
      pct_values_nonneg length_pct_values assms(8) by auto
  let ?r = "res3\<lparr>AvgLatency :=
                    (if recvCount t > 0 then avgLatency t / of_int (recvCount t) else avgLatency t),
                  DepthCDF := map (\<lambda>v. v / of_int m) cdf,
                  AvgDist := divide_counted avgd cnt,
                  Latency := lat, SuccessChildren := successChildren st1\<rparr>"
  have g: "gather_stats S (st1, res1, t) = Some (?r, successChildren st1, algoState st1, draws st1)"
    unfolding gather_stats_def prod.case Let_def
    unfolding res2_def [symmetric] m_def [symmetric]
    unfolding res3_def [symmetric]
    by (simp add: hist tms pl r3)
  have "DepthCDF ?r ! d = (DepthCDF res1 ! d +
                 of_nat (length (filter (\<lambda>u. depth st1 ! nat u = int d) (recvList st1)))) / of_int m"
    if "d < 40" for d
    using that hl hc by simp
  then have "\<exists>r. gather_stats S (st1, res1, t)
               = Some (r, successChildren st1, algoState st1, draws st1) \<and>
           AvgBandwidth r = AvgBandwidth res1 + of_int (dupMsg st1 + m) / of_int m \<and>
           (\<forall>d < 40. DepthCDF r ! d =
              (DepthCDF res1 ! d +
                 of_nat (length (filter (\<lambda>u. depth st1 ! nat u = int d) (recvList st1))))
              / of_int m)"
    using g r3 by (intro exI [of _ ?r]) simp
  then show ?thesis
    unfolding m_def .
qed

subsection \<open>Uncovered nodes\<close>

text \<open>
  Claim C10 (uncovered nodes).  Let \<open>st\<close> be the state in which the event loop of a
  one-repetition run ends.  The marking loop then appends exactly the uncovered nodes
  (not received, not malicious, not absent), in ascending order, to \<open>recvList\<close>, each with
  \<open>recvTime = 10\<^sup>8\<close> and \<open>depth = MaxDepth - 1 = 39\<close>; the run returns a result whose
  bandwidth is \<open>(dupMsg + |recvList|) / |recvList|\<close> over the extended list, and whose
  \<open>DepthCDF[39]\<close> counts every uncovered node next to the receivers of depth 39, over
  the same denominator.
\<close>

theorem C10_uncovered_nodes_counted:
  assumes "n = length (simCoords S)" and "flags_shape S n"
    and "sim_loop A S (init_state S (replicate n []) (algoSetRoot A a0 (simRoot S)) 0) = Some st"
  shows "\<exists>st' res t r.
     mark_uncovered S st (NewTestResult n) = Some (st', res, t) \<and>
     recvList st' = recvList st @ map int (filter (uncovered S st) [0..<n]) \<and>
     (\<forall>i \<in> set (filter (uncovered S st) [0..<n]).
        recvTime st' ! i = inf_sentinel \<and> depth st' ! i = MaxDepth - 1) \<and>
     SingleRootSimulation A S 1 a0 = Some r \<and>
     AvgBandwidth r =
       of_int (dupMsg st + int (length (recvList st'))) / of_int (int (length (recvList st'))) \<and>
     DepthCDF r ! 39 =
       of_nat (length (filter (\<lambda>u. depth st ! nat u = 39) (recvList st)) +
               length (filter (uncovered S st) [0..<n]))
       / of_int (int (length (recvList st')))"
proof -
  let ?U = "filter (uncovered S st) [0..<n]"
  let ?st' = "fold (mark_state S) [0..<n] st"
  have n: "length (simCoords S) = n" using assms(1) by simp
  have inv: "sim_inv n st" and ne: "recvList st \<noteq> []"
    using sim_loop_from_init [OF assms(3)] n by simp_all
  have len: "length (recvFlag st) = n" "length (recvTime st) = n" "length (depth st) = n"
    "length (recvDist st) = n"
    using inv by (simp_all add: sim_inv_def)
  have rl: "\<forall>u \<in> set (recvList st). 0 \<le> u \<and> u < int n \<and> recvFlag st ! nat u"
    using inv by (simp add: sim_inv_def)
  obtain res t where mark: "mark_uncovered S st (NewTestResult n) = Some (?st', res, t)"
    and mf: "main_fields res = main_fields (NewTestResult n)"
    using mark_loop_refines [OF assms(2) _ len(1,2,3), of "[0..<n]" "NewTestResult n"
        "\<lparr>recvCount = 0, avgLatency = 0, clusterRecvCount = replicate (nat K) 0\<rparr>"]
    by (auto simp: mark_uncovered_def n upto_as_upt)
  note fm = fold_mark_upt [OF len(2,3), of n S, simplified]
  note sh = fold_mark_shape [of S "[0..<n]" st]
  have list: "recvList ?st' = recvList st @ map int ?U"
    using fm by simp
  have marked: "\<forall>i \<in> set ?U. recvTime ?st' ! i = inf_sentinel \<and> depth ?st' ! i = MaxDepth - 1"
    using fm by auto
  have kept: "depth ?st' ! nat u = depth st ! nat u" if "u \<in> set (recvList st)" for u
  proof -
    have "nat u < n" "recvFlag st ! nat u" using rl that by auto
    then show ?thesis using fm by (simp add: uncovered_def)
  qed
  have range': "\<forall>u \<in> set (recvList ?st'). 0 \<le> u \<and> u < int n"
    using rl list by auto
  have res: "AvgBandwidth res = 0" "DepthCDF res = replicate 40 0" "AvgDist res = replicate 40 0"
    "Latency res = replicate 21 0"
    using mf by (simp_all add: main_fields_def NewTestResult_def MaxDepth_def)
  obtain r where g: "gather_stats S (?st', res, t)
               = Some (r, successChildren ?st', algoState ?st', draws ?st')"
    and bw: "AvgBandwidth r = AvgBandwidth res +
              of_int (dupMsg ?st' + int (length (recvList ?st'))) / of_int (int (length (recvList ?st')))"
    and cdf: "\<forall>d < 40. DepthCDF r ! d =
              (DepthCDF res ! d +
                 of_nat (length (filter (\<lambda>u. depth ?st' ! nat u = int d) (recvList ?st'))))
              / of_int (int (length (recvList ?st')))"
    using gather_stats_ok [of ?st' n res S t] sh len range' list ne res by auto
  have c1: "filter (\<lambda>u. depth ?st' ! nat u = 39) (recvList st)
          = filter (\<lambda>u. depth st ! nat u = 39) (recvList st)"
    by (rule filter_cong) (simp_all add: kept)
  have c2: "filter (\<lambda>u. depth ?st' ! nat u = 39) (map int ?U) = map int ?U"
    using marked by (auto simp: filter_id_conv MaxDepth_def)
  have count: "length (filter (\<lambda>u. depth ?st' ! nat u = 39) (recvList ?st'))
      = length (filter (\<lambda>u. depth st ! nat u = 39) (recvList st)) + length ?U"
    unfolding list filter_append c1 c2 by simp
  have d39: "DepthCDF r ! 39 =
       of_nat (length (filter (\<lambda>u. depth st ! nat u = 39) (recvList st)) + length ?U)
       / of_int (int (length (recvList ?st')))"
    using cdf [rule_format, of 39] count res by simp
  have rb: "rept_body A S (NewTestResult n, replicate n [], algoSetRoot A a0 (simRoot S), 0)
      = Some (r, successChildren ?st', algoState ?st', draws ?st')"
    by (simp add: rept_body_def assms(3) mark g)
  let ?r = "r\<lparr>AvgBandwidth := AvgBandwidth r / of_int 1,
                DepthCDF := map (\<lambda>v. v / of_int 1) (DepthCDF r),
                Latency := map (finish_latency 1) (Latency r)\<rparr>"
  have final: "SingleRootSimulation A S 1 a0 = Some ?r"
    using rb by (simp add: SingleRootSimulation_def n)
  have "AvgBandwidth ?r =
       of_int (dupMsg st + int (length (recvList ?st'))) / of_int (int (length (recvList ?st')))"
    using bw res sh by simp
  moreover have "DepthCDF ?r ! 39 =
       of_nat (length (filter (\<lambda>u. depth st ! nat u = 39) (recvList st)) + length ?U)
       / of_int (int (length (recvList ?st')))"
    using d39 by simp
  ultimately show ?thesis
    using mark list marked final by blast
qed

theorem C10_uncovered_nodes_witness:
  "3 = length (simCoords gap_setup) \<and> flags_shape gap_setup 3 \<and>
   (\<exists>st. sim_loop MercatorAlgorithm gap_setup
           (init_state gap_setup (replicate 3 [])
              (algoSetRoot MercatorAlgorithm gap_net (simRoot gap_setup)) 0) = Some st \<and>
         recvList st = [0, 1] \<and> dupMsg st = 1 \<and>
         filter (uncovered gap_setup st) [0..<3] = [2]) \<and>
   map_option AvgBandwidth (SingleRootSimulation MercatorAlgorithm gap_setup 1 gap_net)
     = Some (4 / 3) \<and>
   map_option (\<lambda>r. DepthCDF r ! 39) (SingleRootSimulation MercatorAlgorithm gap_setup 1 gap_net)
     = Some (1 / 3)"
proof -
  let ?run = "sim_loop MercatorAlgorithm gap_setup
           (init_state gap_setup (replicate 3 [])
              (algoSetRoot MercatorAlgorithm gap_net (simRoot gap_setup)) 0)"
  have n: "3 = length (simCoords gap_setup)"
    by (simp add: gap_setup_def)
  have sh: "flags_shape gap_setup 3"
    by (simp add: flags_shape_def gap_setup_def)
  have "\<not> Option.is_none ?run"
    by code_simp
  then obtain st where run: "?run = Some st"
    by (auto simp: Option.is_none_def)
  have "map_option (\<lambda>st. (recvList st, recvFlag st, depth st, dupMsg st)) ?run
      = Some ([0, 1], [True, True, False], [0, 1, 0], 1)"
    by code_simp
  then have f: "recvList st = [0, 1]" "recvFlag st = [True, True, False]"
    "depth st = [0, 1, 0]" "dupMsg st = 1"
    using run by simp_all
  have three: "[0..<3] = [0, 1, 2]"
    by code_simp
  have U: "filter (uncovered gap_setup st) [0..<3] = [2]"
    unfolding three by (simp add: uncovered_def f gap_setup_def)
  have R: "filter (\<lambda>u. depth st ! nat u = 39) (recvList st) = []"
    by (simp add: f)
  from C10_uncovered_nodes_counted [OF n sh run]
  obtain st' :: "Mercator sim_state" and r
    where l: "recvList st' = recvList st @ map int (filter (uncovered gap_setup st) [0..<3])"
    and r: "SingleRootSimulation MercatorAlgorithm gap_setup 1 gap_net = Some r"
    and bw: "AvgBandwidth r =
       of_int (dupMsg st + int (length (recvList st'))) / of_int (int (length (recvList st')))"
    and d: "DepthCDF r ! 39 =
       of_nat (length (filter (\<lambda>u. depth st ! nat u = 39) (recvList st)) +
               length (filter (uncovered gap_setup st) [0..<3]))
       / of_int (int (length (recvList st')))"
    by blast
  have "length (recvList st') = 3"
    using l U f by simp
  then have "AvgBandwidth r = 4 / 3" "DepthCDF r ! 39 = 1 / 3"
    using bw d U R f by simp_all
  then show ?thesis
    using n sh run f U r by simp
qed

end
